theory Spec2Isabelle
  imports Main
begin

section \<open>JavaScript strings\<close>

text \<open>
  A JavaScript string is a sequence of UTF-16 code units. A code unit is modelled by its
  number, a string by the list of its code units. \<open>js\<close> turns an ASCII literal of the
  theory into such a string.
\<close>

type_synonym jschar = nat
type_synonym jsstring = "nat list"

definition js :: "string \<Rightarrow> jsstring" where
  "js s = map of_char s"

definition hyphen :: jschar where
  "hyphen = 45"

definition underscore :: jschar where
  "underscore = 95"

definition isUpperAZ :: "jschar \<Rightarrow> bool" where
  "isUpperAZ c = (65 \<le> c \<and> c \<le> 90)"

definition isLowerAZ :: "jschar \<Rightarrow> bool" where
  "isLowerAZ c = (97 \<le> c \<and> c \<le> 122)"

definition isDigit :: "jschar \<Rightarrow> bool" where
  "isDigit c = (48 \<le> c \<and> c \<le> 57)"

text \<open>The class \<open>\w\<close> of a regular expression without the \<open>u\<close> and \<open>i\<close> flags: \<open>[A-Za-z0-9_]\<close>.\<close>

definition isWord :: "jschar \<Rightarrow> bool" where
  "isWord c = (isUpperAZ c \<or> isLowerAZ c \<or> isDigit c \<or> c = underscore)"

text \<open>
  The class \<open>\s\<close>, which is also what \<open>String.prototype.trim\<close> strips: the WhiteSpace and
  LineTerminator code points of ECMAScript (TAB, LF, VT, FF, CR, SP, NBSP, U+1680,
  U+2000 to U+200A, LS, PS, U+202F, U+205F, U+3000, U+FEFF).
\<close>

definition isSpace :: "jschar \<Rightarrow> bool" where
  "isSpace c = (c = 9 \<or> c = 10 \<or> c = 11 \<or> c = 12 \<or> c = 13 \<or> c = 32 \<or> c = 160 \<or>
     c = 5760 \<or> (8192 \<le> c \<and> c \<le> 8202) \<or> c = 8232 \<or> c = 8233 \<or> c = 8239 \<or>
     c = 8287 \<or> c = 12288 \<or> c = 65279)"

text \<open>
  What the theory leaves to the JavaScript engine and its host: the Unicode case
  conversion of a string that is not pure ASCII, the parsing of a date string that is not
  in the ECMAScript date-time string format, the local time zone adjustment
  \<open>LocalTZA(t, isUTC)\<close> in milliseconds, and the name of the time zone that
  \<open>toTimeString\<close> appends.
\<close>

record engine =
  unicodeLower :: "jsstring \<Rightarrow> jsstring"
  parseFallback :: "jsstring \<Rightarrow> int option"
  LocalTZA :: "int \<Rightarrow> bool \<Rightarrow> int"
  tzName :: "int \<Rightarrow> jsstring"

definition asciiLower :: "jschar \<Rightarrow> jschar" where
  "asciiLower c = (if isUpperAZ c then c + 32 else c)"

text \<open>
  \<open>String.prototype.toLowerCase\<close>. On a string of ASCII code units it maps \<open>A-Z\<close> to
  \<open>a-z\<close> and keeps every other code unit; on any other string the result is the engine's.
\<close>

definition toLowerCase :: "engine \<Rightarrow> jsstring \<Rightarrow> jsstring" where
  "toLowerCase E s = (if list_all (\<lambda>c. c < 128) s then map asciiLower s else unicodeLower E s)"

text \<open>\<open>String.prototype.trim\<close>: white space is removed from both ends.\<close>

definition trim :: "jsstring \<Rightarrow> jsstring" where
  "trim s = rev (dropWhile isSpace (rev (dropWhile isSpace s)))"

section \<open>Event: slug derivation\<close>

text \<open>\<open>.replace(/[^\w\s-]/g, '')\<close>: every code unit outside the class is deleted.\<close>

definition removeSpecial :: "jsstring \<Rightarrow> jsstring" where
  "removeSpecial s = filter (\<lambda>c. isWord c \<or> isSpace c \<or> c = hyphen) s"

definition isSep :: "jschar \<Rightarrow> bool" where
  "isSep c = (isSpace c \<or> c = underscore \<or> c = hyphen)"

text \<open>
  \<open>.replace(/[\s_-]+/g, '-')\<close>: scanning from the left, every maximal run of separators
  (the quantifier is greedy) is replaced by one hyphen.
\<close>

function collapseSep :: "jsstring \<Rightarrow> jsstring" where
  "collapseSep [] = []"
| "collapseSep (c # cs) =
     (if isSep c then hyphen # collapseSep (dropWhile isSep cs) else c # collapseSep cs)"
  by pat_completeness auto
termination
  by (relation "measure length") (auto simp: length_dropWhile_le less_Suc_eq_le)

text \<open>
  \<open>.replace(/^-+|-+$/g, '')\<close>: the hyphens at the start are one match, the hyphens at the
  end another, and both are deleted.
\<close>

definition stripEdgeHyphens :: "jsstring \<Rightarrow> jsstring" where
  "stripEdgeHyphens s =
     rev (dropWhile (\<lambda>c. c = hyphen) (rev (dropWhile (\<lambda>c. c = hyphen) s)))"

text \<open>The chain of calls that the pre-save hook applies to \<open>this.title\<close>.\<close>

definition slugify :: "engine \<Rightarrow> jsstring \<Rightarrow> jsstring" where
  "slugify E t =
     stripEdgeHyphens (collapseSep (removeSpecial (trim (toLowerCase E t))))"

section \<open>Regular expressions\<close>

text \<open>
  The two patterns that the source applies with \<open>RegExp.prototype.test\<close> are anchored at
  both ends, so \<open>test\<close> asks whether the whole string belongs to the language of the
  pattern between the anchors. Patterns are terms of \<open>rx\<close>; \<open>rx_test\<close> decides
  membership by derivatives, and \<open>lang\<close> is the language it decides.
\<close>

datatype rx =
  Zero
| One
| Cls "jschar \<Rightarrow> bool"
| Alt rx rx
| Seq rx rx
| Star rx

definition Chr :: "char \<Rightarrow> rx" where
  "Chr c = Cls (\<lambda>x. x = of_char c)"

definition Rng :: "char \<Rightarrow> char \<Rightarrow> rx" where
  "Rng a b = Cls (\<lambda>x. of_char a \<le> x \<and> x \<le> of_char b)"

definition Opt :: "rx \<Rightarrow> rx" where
  "Opt r = Alt One r"

definition Plus :: "rx \<Rightarrow> rx" where
  "Plus r = Seq r (Star r)"

fun nullable :: "rx \<Rightarrow> bool" where
  "nullable Zero = False"
| "nullable One = True"
| "nullable (Cls p) = False"
| "nullable (Alt r s) = (nullable r \<or> nullable s)"
| "nullable (Seq r s) = (nullable r \<and> nullable s)"
| "nullable (Star r) = True"

fun deriv :: "jschar \<Rightarrow> rx \<Rightarrow> rx" where
  "deriv c Zero = Zero"
| "deriv c One = Zero"
| "deriv c (Cls p) = (if p c then One else Zero)"
| "deriv c (Alt r s) = Alt (deriv c r) (deriv c s)"
| "deriv c (Seq r s) =
     (if nullable r then Alt (Seq (deriv c r) s) (deriv c s) else Seq (deriv c r) s)"
| "deriv c (Star r) = Seq (deriv c r) (Star r)"

fun rx_test :: "rx \<Rightarrow> jsstring \<Rightarrow> bool" where
  "rx_test r [] = nullable r"
| "rx_test r (c # cs) = rx_test (deriv c r) cs"

inductive_set star :: "jsstring set \<Rightarrow> jsstring set" for A :: "jsstring set" where
  star_Nil: "[] \<in> star A"
| star_step: "u \<in> A \<Longrightarrow> v \<in> star A \<Longrightarrow> u @ v \<in> star A"

fun lang :: "rx \<Rightarrow> jsstring set" where
  "lang Zero = {}"
| "lang One = {[]}"
| "lang (Cls p) = {[c] | c. p c}"
| "lang (Alt r s) = lang r \<union> lang s"
| "lang (Seq r s) = {u @ v | u v. u \<in> lang r \<and> v \<in> lang s}"
| "lang (Star r) = star (lang r)"

section \<open>Dates\<close>

text \<open>
  A \<open>Date\<close> holds a time value: milliseconds since 1970-01-01T00:00:00Z, or \<open>NaN\<close>
  (here \<open>None\<close>). The hook uses the constructor on a string, \<open>getTime\<close>,
  \<open>toISOString\<close> and \<open>toTimeString\<close>. They are modelled after ECMA-262, section
  "Date Objects": the day and year arithmetic of "Time Values and Time Range" with the
  names it has there, the date-time string format, and the two conversions to strings.
  Division rounds down there, as \<open>div\<close> and \<open>mod\<close> on \<open>int\<close> do.
\<close>

definition msPerDay :: int where
  "msPerDay = 86400000"

definition Day :: "int \<Rightarrow> int" where
  "Day t = t div msPerDay"

definition DaysInYear :: "int \<Rightarrow> int" where
  "DaysInYear y =
     (if y mod 4 \<noteq> 0 then 365 else if y mod 100 \<noteq> 0 then 366
      else if y mod 400 \<noteq> 0 then 365 else 366)"

definition DayFromYear :: "int \<Rightarrow> int" where
  "DayFromYear y =
     365 * (y - 1970) + (y - 1969) div 4 - (y - 1901) div 100 + (y - 1601) div 400"

text \<open>
  The year of a day number: the largest \<open>y\<close> with \<open>DayFromYear y \<le> d\<close>. It is found
  next to the estimate that a mean year of 365.2425 days gives.
\<close>

definition YearFromDay :: "int \<Rightarrow> int" where
  "YearFromDay d =
     (let y = 1970 + (400 * d) div 146097
      in if DayFromYear (y + 1) \<le> d then y + 1 else if DayFromYear y \<le> d then y else y - 1)"

definition YearFromTime :: "int \<Rightarrow> int" where
  "YearFromTime t = YearFromDay (Day t)"

definition InLeapYear :: "int \<Rightarrow> int" where
  "InLeapYear t = (if DaysInYear (YearFromTime t) = 366 then 1 else 0)"

definition DayWithinYear :: "int \<Rightarrow> int" where
  "DayWithinYear t = Day t - DayFromYear (YearFromTime t)"

definition MonthFromTime :: "int \<Rightarrow> int" where
  "MonthFromTime t =
     (let d = DayWithinYear t; l = InLeapYear t
      in if d < 31 then 0
         else if d < 59 + l then 1
         else if d < 90 + l then 2
         else if d < 120 + l then 3
         else if d < 151 + l then 4
         else if d < 181 + l then 5
         else if d < 212 + l then 6
         else if d < 243 + l then 7
         else if d < 273 + l then 8
         else if d < 304 + l then 9
         else if d < 334 + l then 10
         else 11)"

text \<open>The number of days of the year that lie before month \<open>m\<close> (0 to 11).\<close>

definition monthStart :: "int \<Rightarrow> int \<Rightarrow> int" where
  "monthStart l m =
     (if m = 0 then 0
      else if m = 1 then 31
      else if m = 2 then 59 + l
      else if m = 3 then 90 + l
      else if m = 4 then 120 + l
      else if m = 5 then 151 + l
      else if m = 6 then 181 + l
      else if m = 7 then 212 + l
      else if m = 8 then 243 + l
      else if m = 9 then 273 + l
      else if m = 10 then 304 + l
      else 334 + l)"

definition DateFromTime :: "int \<Rightarrow> int" where
  "DateFromTime t = DayWithinYear t - monthStart (InLeapYear t) (MonthFromTime t) + 1"

definition HourFromTime :: "int \<Rightarrow> int" where
  "HourFromTime t = (t div 3600000) mod 24"

definition MinFromTime :: "int \<Rightarrow> int" where
  "MinFromTime t = (t div 60000) mod 60"

definition SecFromTime :: "int \<Rightarrow> int" where
  "SecFromTime t = (t div 1000) mod 60"

definition msFromTime :: "int \<Rightarrow> int" where
  "msFromTime t = t mod 1000"

definition MakeTime :: "int \<Rightarrow> int \<Rightarrow> int \<Rightarrow> int \<Rightarrow> int" where
  "MakeTime h m s ms = h * 3600000 + m * 60000 + s * 1000 + ms"

text \<open>\<open>MakeDay\<close> for a month number from 0 to 11, the only case that parsing needs.\<close>

definition MakeDay :: "int \<Rightarrow> int \<Rightarrow> int \<Rightarrow> int" where
  "MakeDay y m d = DayFromYear y + monthStart (if DaysInYear y = 366 then 1 else 0) m + d - 1"

definition MakeDate :: "int \<Rightarrow> int \<Rightarrow> int" where
  "MakeDate day time = day * msPerDay + time"

definition TimeClip :: "int \<Rightarrow> int option" where
  "TimeClip t = (if \<bar>t\<bar> > 8640000000000000 then None else Some t)"

definition DaysInMonth :: "int \<Rightarrow> int \<Rightarrow> int" where
  "DaysInMonth y m =
     (if m = 2 then (if DaysInYear y = 366 then 29 else 28)
      else if m = 4 \<or> m = 6 \<or> m = 9 \<or> m = 11 then 30 else 31)"

subsection \<open>Parsing\<close>

text \<open>\<open>digits n s\<close> reads exactly \<open>n\<close> decimal digits from the front of \<open>s\<close>.\<close>

fun digits :: "nat \<Rightarrow> jsstring \<Rightarrow> (int \<times> jsstring) option" where
  "digits 0 s = Some (0, s)"
| "digits (Suc n) [] = None"
| "digits (Suc n) (c # cs) =
     (if isDigit c
      then (case digits n cs of
              None \<Rightarrow> None
            | Some (v, r) \<Rightarrow> Some ((int c - 48) * 10 ^ n + v, r))
      else None)"

text \<open>An optional field: when the string goes on with the separator, the digits must follow.\<close>

definition optField :: "char \<Rightarrow> nat \<Rightarrow> int \<Rightarrow> jsstring \<Rightarrow> (int \<times> bool \<times> jsstring) option" where
  "optField sep n dflt s =
     (case s of
        [] \<Rightarrow> Some (dflt, False, s)
      | c # cs \<Rightarrow>
          if c = of_char sep
          then (case digits n cs of None \<Rightarrow> None | Some (v, r) \<Rightarrow> Some (v, True, r))
          else Some (dflt, False, s))"

text \<open>
  The UTC offset at the end of a date-time form: nothing (local time), \<open>Z\<close>, or a sign with
  \<open>HH:mm\<close>. The result is the offset in milliseconds, \<open>None\<close> inside for local time.
\<close>

definition parseOffset :: "jsstring \<Rightarrow> int option option" where
  "parseOffset s =
     (if s = [] then Some None
      else if s = js ''Z'' then Some (Some 0)
      else if hd s = of_char CHR ''+'' \<or> hd s = of_char CHR ''-''
      then (case digits 2 (tl s) of
              None \<Rightarrow> None
            | Some (h, r) \<Rightarrow>
                (case optField CHR '':'' 2 0 r of
                   None \<Rightarrow> None
                 | Some (m, present, r') \<Rightarrow>
                     if present \<and> r' = [] \<and> h \<le> 23 \<and> m \<le> 59
                     then Some (Some ((if hd s = of_char CHR ''-'' then - 1 else 1)
                                      * (h * 3600000 + m * 60000)))
                     else None))
      else None)"

text \<open>
  The time of day after \<open>T\<close>: \<open>HH:mm\<close>, \<open>HH:mm:ss\<close> or \<open>HH:mm:ss.sss\<close>, then the offset.
  The hour goes up to 24, and 24 only as \<open>24:00:00.000\<close>.
\<close>

definition parseTime :: "jsstring \<Rightarrow> (int \<times> int option) option" where
  "parseTime s =
     (case digits 2 s of
        None \<Rightarrow> None
      | Some (h, r1) \<Rightarrow>
     (case optField CHR '':'' 2 0 r1 of
        None \<Rightarrow> None
      | Some (m, mp, r2) \<Rightarrow>
     (case optField CHR '':'' 2 0 r2 of
        None \<Rightarrow> None
      | Some (sec, sp, r3) \<Rightarrow>
     (case (if sp then optField CHR ''.'' 3 0 r3 else Some (0, False, r3)) of
        None \<Rightarrow> None
      | Some (ms, _, r4) \<Rightarrow>
     (case parseOffset r4 of
        None \<Rightarrow> None
      | Some off \<Rightarrow>
          if mp \<and> m \<le> 59 \<and> sec \<le> 59 \<and> (h \<le> 23 \<or> (h = 24 \<and> m = 0 \<and> sec = 0 \<and> ms = 0))
          then Some (MakeTime h m sec ms, off)
          else None)))))"

text \<open>
  A string in the ECMAScript date-time string format with a four-digit year and every
  field within its bounds: \<open>YYYY\<close>, \<open>YYYY-MM\<close> or \<open>YYYY-MM-DD\<close>, alone (then it is UTC)
  or followed by \<open>T\<close> and a time of day (then it is local time unless an offset is
  given). Every other string, among them the forms with an expanded year, is left to the
  engine: the result is \<open>None\<close> here.
\<close>

definition parseISO :: "engine \<Rightarrow> jsstring \<Rightarrow> int option" where
  "parseISO E s =
     (case digits 4 s of
        None \<Rightarrow> None
      | Some (y, r1) \<Rightarrow>
     (case optField CHR ''-'' 2 1 r1 of
        None \<Rightarrow> None
      | Some (m, mp, r2) \<Rightarrow>
     (case (if mp then optField CHR ''-'' 2 1 r2 else Some (1, False, r2)) of
        None \<Rightarrow> None
      | Some (d, _, r3) \<Rightarrow>
          if 1 \<le> m \<and> m \<le> 12 \<and> 1 \<le> d \<and> d \<le> DaysInMonth y m
          then (if r3 = [] then Some (MakeDate (MakeDay y (m - 1) d) 0)
                else if hd r3 = of_char CHR ''T''
                then (case parseTime (tl r3) of
                        None \<Rightarrow> None
                      | Some (time, off) \<Rightarrow>
                          (let t = MakeDate (MakeDay y (m - 1) d) time
                           in case off of
                                None \<Rightarrow> Some (t - LocalTZA E t False)
                              | Some z \<Rightarrow> Some (t - z)))
                else None)
          else None)))"

text \<open>
  \<open>new Date(s).getTime()\<close> for a string \<open>s\<close>: the time value of \<open>Date.parse\<close>, which
  tries the date-time string format first and then whatever else the engine accepts.
\<close>

definition Date_parse :: "engine \<Rightarrow> jsstring \<Rightarrow> int option" where
  "Date_parse E s =
     (case parseISO E s of
        Some t \<Rightarrow> TimeClip t
      | None \<Rightarrow> (case parseFallback E s of None \<Rightarrow> None | Some t \<Rightarrow> TimeClip t))"

subsection \<open>Formatting\<close>

definition digitChar :: "int \<Rightarrow> jschar" where
  "digitChar d = nat (48 + d mod 10)"

text \<open>\<open>pad n v\<close>: the last \<open>n\<close> decimal digits of \<open>v\<close>, with leading zeros.\<close>

fun pad :: "nat \<Rightarrow> int \<Rightarrow> jsstring" where
  "pad 0 v = []"
| "pad (Suc n) v = pad n (v div 10) @ [digitChar v]"

definition yearString :: "int \<Rightarrow> jsstring" where
  "yearString y =
     (if 0 \<le> y \<and> y \<le> 9999 then pad 4 y
      else (if y < 0 then js ''-'' else js ''+'') @ pad 6 \<bar>y\<bar>)"

text \<open>The calendar day of a time value in UTC, as \<open>toISOString\<close> writes it.\<close>

definition isoDate :: "int \<Rightarrow> jsstring" where
  "isoDate t =
     yearString (YearFromTime t) @ js ''-'' @ pad 2 (MonthFromTime t + 1) @ js ''-'' @
     pad 2 (DateFromTime t)"

definition toISOString :: "int \<Rightarrow> jsstring" where
  "toISOString t =
     isoDate t @ js ''T'' @ pad 2 (HourFromTime t) @ js '':'' @ pad 2 (MinFromTime t) @
     js '':'' @ pad 2 (SecFromTime t) @ js ''.'' @ pad 3 (msFromTime t) @ js ''Z''"

text \<open>
  \<open>toTimeString\<close>: the local time of day, \<open>GMT\<close>, the offset of the local time zone and
  the engine's name for that zone.
\<close>

definition toTimeString :: "engine \<Rightarrow> int \<Rightarrow> jsstring" where
  "toTimeString E t =
     (let l = t + LocalTZA E t True; z = LocalTZA E t True
      in pad 2 (HourFromTime l) @ js '':'' @ pad 2 (MinFromTime l) @ js '':'' @
         pad 2 (SecFromTime l) @ js '' GMT'' @ (if 0 \<le> z then js ''+'' else js ''-'') @
         pad 2 (HourFromTime \<bar>z\<bar>) @ pad 2 (MinFromTime \<bar>z\<bar>) @ tzName E t)"

section \<open>Mongoose documents\<close>

text \<open>
  A document is its fields together with what Mongoose tracks about it: whether it has
  never been saved (\<open>isNew\<close>) and which paths were assigned since it was loaded.
\<close>

record 'a document =
  content :: 'a
  isNew :: bool
  modifiedPaths :: "string set"

definition isModified :: "'a document \<Rightarrow> string \<Rightarrow> bool" where
  "isModified d p = (p \<in> modifiedPaths d)"

section \<open>Event: the pre-save hook\<close>

record event =
  title :: jsstring
  slug :: jsstring
  description :: jsstring
  overview :: jsstring
  image_url :: jsstring
  venue :: jsstring
  location :: jsstring
  date :: jsstring
  time :: jsstring
  mode :: jsstring
  audience :: jsstring
  agenda :: "jsstring list"
  organizer :: jsstring
  tags :: "jsstring list"

text \<open>\<open>/^([01]?[0-9]|2[0-3]):([0-5][0-9])$/\<close>\<close>

definition timeRegex :: rx where
  "timeRegex =
     Seq (Alt (Seq (Opt (Rng CHR ''0'' CHR ''1'')) (Rng CHR ''0'' CHR ''9''))
              (Seq (Chr CHR ''2'') (Rng CHR ''0'' CHR ''3'')))
         (Seq (Chr CHR '':'') (Seq (Rng CHR ''0'' CHR ''5'') (Rng CHR ''0'' CHR ''9'')))"

text \<open>
  The body of the first \<open>try\<close>: \<open>new Date(this.date)\<close>, the check for \<open>NaN\<close> with its
  \<open>throw\<close>, and \<open>toISOString().split('T')[0]\<close>. \<open>Inl\<close> is the thrown error.
\<close>

definition date_try :: "engine \<Rightarrow> jsstring \<Rightarrow> jsstring + jsstring" where
  "date_try E s =
     (case Date_parse E s of
        None \<Rightarrow> Inl (js ''Invalid date format'')
      | Some t \<Rightarrow> Inr (takeWhile (\<lambda>c. c \<noteq> of_char CHR ''T'') (toISOString t)))"

text \<open>The \<open>catch\<close> drops whatever was thrown and passes its own error to \<open>next\<close>.\<close>

definition normalize_date :: "engine \<Rightarrow> jsstring \<Rightarrow> jsstring + jsstring" where
  "normalize_date E s =
     (case date_try E s of
        Inl thrown \<Rightarrow> Inl (js ''Date must be in a valid format (YYYY-MM-DD or ISO string)'')
      | Inr v \<Rightarrow> Inr v)"

text \<open>
  The body of the second \<open>try\<close>, entered when the pattern does not match:
  \<open>new Date(`2000-01-01T${this.time}`)\<close>, the check for \<open>NaN\<close>, and
  \<open>toTimeString().slice(0, 5)\<close>.
\<close>

definition time_try :: "engine \<Rightarrow> jsstring \<Rightarrow> jsstring + jsstring" where
  "time_try E s =
     (case Date_parse E (js ''2000-01-01T'' @ s) of
        None \<Rightarrow> Inl (js ''Invalid time'')
      | Some t \<Rightarrow> Inr (take 5 (toTimeString E t)))"

definition normalize_time :: "engine \<Rightarrow> jsstring \<Rightarrow> jsstring + jsstring" where
  "normalize_time E s =
     (if \<not> rx_test timeRegex s
      then (case time_try E s of
              Inl thrown \<Rightarrow> Inl (js ''Time must be in HH:MM format'')
            | Inr v \<Rightarrow> Inr v)
      else Inr s)"

text \<open>
  The four parts of the hook \<open>EventSchema.pre('save', ...)\<close>, in the order of the source.
  The schema declares \<open>slug\<close> with \<open>lowercase: true\<close>, so the assignment to \<open>this.slug\<close>
  stores the lower-cased value. In the two parts that can fail, \<open>Inl\<close> is the message of
  the error passed to \<open>next\<close>.
\<close>

definition slug_step :: "engine \<Rightarrow> event document \<Rightarrow> event document" where
  "slug_step E d =
     (if isNew d \<or> isModified d ''title''
      then d\<lparr>content := (content d)\<lparr>slug := toLowerCase E (slugify E (title (content d)))\<rparr>\<rparr>
      else d)"

definition date_step :: "engine \<Rightarrow> event document \<Rightarrow> jsstring + event document" where
  "date_step E d =
     (if isNew d \<or> isModified d ''date''
      then (case normalize_date E (date (content d)) of
              Inl e \<Rightarrow> Inl e
            | Inr v \<Rightarrow> Inr (d\<lparr>content := (content d)\<lparr>date := v\<rparr>\<rparr>))
      else Inr d)"

definition time_step :: "engine \<Rightarrow> event document \<Rightarrow> jsstring + event document" where
  "time_step E d =
     (if isNew d \<or> isModified d ''time''
      then (case normalize_time E (time (content d)) of
              Inl e \<Rightarrow> Inl e
            | Inr v \<Rightarrow> Inr (d\<lparr>content := (content d)\<lparr>time := v\<rparr>\<rparr>))
      else Inr d)"

definition array_guard :: "event document \<Rightarrow> jsstring option" where
  "array_guard d =
     (if agenda (content d) = [] then Some (js ''Agenda cannot be empty'')
      else if tags (content d) = [] then Some (js ''Tags cannot be empty'')
      else None)"

text \<open>
  The hook returns the document as it leaves it and what it passes to \<open>next\<close>: \<open>None\<close>
  for \<open>next()\<close>, the message of the error for \<open>next(new Error(...))\<close>.
\<close>

definition event_pre_save :: "engine \<Rightarrow> event document \<Rightarrow> event document \<times> jsstring option" where
  "event_pre_save E d =
     (let d1 = slug_step E d
      in case date_step E d1 of
           Inl e \<Rightarrow> (d1, Some e)
         | Inr d2 \<Rightarrow>
             (case time_step E d2 of
                Inl e \<Rightarrow> (d2, Some e)
              | Inr d3 \<Rightarrow> (d3, array_guard d3)))"

section \<open>Booking\<close>

record booking =
  eventId :: "jsstring option"
  email :: "jsstring option"

text \<open>
  \<open>eventId\<close> is an ObjectId, as the interface \<open>IBooking\<close> types it; the model keeps the 24
  hexadecimal digits that the template literal \<open>${this.eventId}\<close> prints. A field is
  \<open>None\<close> when the path is missing from the document.
\<close>

definition idString :: "jsstring option \<Rightarrow> jsstring" where
  "idString i = (case i of None \<Rightarrow> js ''undefined'' | Some h \<Rightarrow> h)"

text \<open>\<open>/^[^\s@]+@[^\s@]+\.[^\s@]+$/\<close>\<close>

definition notSpaceAt :: "jschar \<Rightarrow> bool" where
  "notSpaceAt c = (\<not> isSpace c \<and> c \<noteq> of_char CHR ''@'')"

definition emailRegex :: rx where
  "emailRegex =
     Seq (Plus (Cls notSpaceAt))
       (Seq (Chr CHR ''@'')
         (Seq (Plus (Cls notSpaceAt)) (Seq (Chr CHR ''.'') (Plus (Cls notSpaceAt)))))"

text \<open>
  The setters of the \<open>email\<close> path, \<open>lowercase: true\<close> and \<open>trim: true\<close>. Mongoose runs
  the setters of a path from the last declared to the first.
\<close>

definition email_setters :: "engine \<Rightarrow> jsstring \<Rightarrow> jsstring" where
  "email_setters E s = toLowerCase E (trim s)"

text \<open>
  A save fails either with a \<open>ValidationError\<close>, whose \<open>errors\<close> object has one entry
  for each path that failed, with its message, or with the error that the pre-save hook
  passed to \<open>next\<close>.
\<close>

datatype save_error =
  ValidationError "string \<rightharpoonup> jsstring"
| HookError jsstring

text \<open>The validator of the \<open>eventId\<close> path, \<open>required\<close>.\<close>

definition eventId_validate :: "jsstring option \<Rightarrow> jsstring option" where
  "eventId_validate v =
     (case v of None \<Rightarrow> Some (js ''Event ID is required'') | Some i \<Rightarrow> None)"

text \<open>
  The validators of the \<open>email\<close> path in the order Mongoose runs them: \<open>required\<close>, which
  a missing or empty string fails, the \<open>validate\<close> function and \<open>maxlength\<close>. The first
  one that fails gives the message.
\<close>

definition email_validate :: "jsstring option \<Rightarrow> jsstring option" where
  "email_validate v =
     (case v of
        None \<Rightarrow> Some (js ''Email is required'')
      | Some e \<Rightarrow>
          if e = [] then Some (js ''Email is required'')
          else if \<not> rx_test emailRegex e then Some (js ''Please provide a valid email address'')
          else if length e > 254 then Some (js ''Email cannot exceed 254 characters'')
          else None)"

text \<open>The validation of a document: the message of every path that fails.\<close>

definition booking_validate :: "booking \<Rightarrow> (string \<rightharpoonup> jsstring)" where
  "booking_validate b =
     (\<lambda>p. if p = ''eventId'' then eventId_validate (eventId b)
          else if p = ''email'' then email_validate (email b)
          else None)"

text \<open>
  What \<open>await import('./event.model')\<close> can do: the module loads, and its default export
  is the Event model, or loading it throws.
\<close>

datatype import_outcome =
  Loaded
| ImportThrowsError jsstring
| ImportThrowsOther

text \<open>What \<open>await Event.exists({ _id: this.eventId })\<close> can do.\<close>

datatype exists_outcome =
  Found
| NotFound
| ThrowsError jsstring
| ThrowsOther

text \<open>
  What the hook finds around it: whether \<open>mongoose.models.Event\<close> is set, what the
  dynamic import does when it is not, and what \<open>Event.exists\<close> does for each identity.
  \<open>ThrowsError m\<close> and \<open>ImportThrowsError m\<close> are a thrown \<open>Error\<close> with message \<open>m\<close>,
  \<open>ThrowsOther\<close> and \<open>ImportThrowsOther\<close> a thrown value that is not an \<open>Error\<close>.
\<close>

record models =
  models_Event :: bool
  import_event_model :: import_outcome
  Event_exists :: "jsstring option \<Rightarrow> exists_outcome"

text \<open>\<open>mongoose.models.Event || (await import('./event.model')).default\<close>\<close>

definition resolve_Event :: "models \<Rightarrow> import_outcome" where
  "resolve_Event M = (if models_Event M then Loaded else import_event_model M)"

text \<open>
  The hook \<open>BookingSchema.pre('save', ...)\<close>. It returns what it passes to \<open>next\<close> and
  the identities it called \<open>Event.exists\<close> with, in order. Resolving the Event model and
  the lookup are both inside the \<open>try\<close>.
\<close>

definition booking_pre_save ::
  "models \<Rightarrow> booking document \<Rightarrow> jsstring option \<times> jsstring option list" where
  "booking_pre_save M d =
     (if isNew d \<or> isModified d ''eventId''
      then (case resolve_Event M of
              ImportThrowsError m \<Rightarrow>
                (Some (js ''Failed to validate event reference: '' @ m), [])
            | ImportThrowsOther \<Rightarrow> (Some (js ''Failed to validate event reference''), [])
            | Loaded \<Rightarrow>
                (case Event_exists M (eventId (content d)) of
                   Found \<Rightarrow> (None, [eventId (content d)])
                 | NotFound \<Rightarrow>
                     (Some (js ''Event with ID '' @ idString (eventId (content d)) @
                            js '' does not exist''),
                      [eventId (content d)])
                 | ThrowsError m \<Rightarrow>
                     (Some (js ''Failed to validate event reference: '' @ m),
                      [eventId (content d)])
                 | ThrowsOther \<Rightarrow>
                     (Some (js ''Failed to validate event reference''), [eventId (content d)])))
      else (None, []))"

text \<open>
  \<open>save\<close> up to the write. Mongoose registers the validation of the document as the first
  pre-save hook, before the hooks of the schema: when a path fails, the save is rejected
  with the \<open>ValidationError\<close> and the hook above does not run. Otherwise the hook runs, and
  the document is handed to the storage only when it passed no error to \<open>next\<close>. The
  result is the outcome, \<open>Inr\<close> the document that goes to the storage, and the identities
  that were looked up.
\<close>

definition booking_save ::
  "models \<Rightarrow> booking document \<Rightarrow> (save_error + booking) \<times> jsstring option list" where
  "booking_save M d =
     (if eventId_validate (eventId (content d)) = None \<and>
         email_validate (email (content d)) = None
      then (case booking_pre_save M d of
              (Some m, lookups) \<Rightarrow> (Inl (HookError m), lookups)
            | (None, lookups) \<Rightarrow> (Inr (content d), lookups))
      else (Inl (ValidationError (booking_validate (content d))), []))"

section \<open>The connection cache\<close>

text \<open>
  The module \<open>lib/mongoose\<close>. Its state is the object \<open>cached\<close>, shared through
  \<open>global.mongoose\<close>, and what the JavaScript run time holds for the calls of
  \<open>connectToDatabase\<close>: the connection attempts made with \<open>mongoose.connect\<close>, the
  calls that are suspended at their \<open>await\<close>, and the queue of microtasks.

  An attempt is numbered in the order of the calls of \<open>mongoose.connect\<close>. The value of
  \<open>cached.promise\<close> is the number of the attempt whose promise it holds, the value of
  \<open>cached.conn\<close> the number of the attempt that delivered the connection.
\<close>

record cache =
  conn :: "nat option"
  promise :: "nat option"

datatype pstate = Pending | Fulfilled | Rejected

text \<open>
  For one attempt: the promise that \<open>mongoose.connect\<close> returned, the promise at the end
  of \<open>.then(...).catch(...)\<close>, which is the one stored in \<open>cached.promise\<close>, and the
  calls that wait for the latter.
\<close>

record attempt =
  connectP :: pstate
  cachedP :: pstate
  waiters :: "nat list"

text \<open>
  Code of the application that continues in a microtask: it calls \<open>connectToDatabase\<close>,
  or it first awaits a settled promise once more. A microtask is such a continuation, the
  reaction of \<open>.then\<close> or of \<open>.catch\<close> for an attempt, or the resumption of a call after
  its \<open>await\<close>.
\<close>

datatype app =
  AppCall
| AppAwait app

datatype job =
  ThenJob nat
| CatchJob nat
| Resume nat nat
| App app

datatype call_state =
  Awaiting nat
| Returned nat
| Threw nat

record system =
  mongoUrl :: jsstring
  cached :: cache
  attempts :: "attempt list"
  calls :: "call_state list"
  queue :: "job list"

text \<open>
  The top level of the module: the check of \<open>process.env.MONGODB_URL\<close>, where
  \<open>!MONGODB_URL\<close> holds for \<open>undefined\<close> and for the empty string, and the set-up of
  \<open>cached\<close> from \<open>global.mongoose\<close>. The second argument is \<open>None\<close> when
  \<open>global.mongoose\<close> is undefined, and otherwise the state that an earlier load of the
  module left in the process. \<open>Inl\<close> is the message of the error thrown.
\<close>

definition module_init :: "jsstring option \<Rightarrow> system option \<Rightarrow> jsstring + system" where
  "module_init MONGODB_URL global_mongoose =
     (case MONGODB_URL of
        None \<Rightarrow> Inl (js ''Please define the MONGODB_URL environment variable inside .env'')
      | Some url \<Rightarrow>
          if url = []
          then Inl (js ''Please define the MONGODB_URL environment variable inside .env'')
          else Inr (case global_mongoose of
                      None \<Rightarrow> \<lparr>mongoUrl = url, cached = \<lparr>conn = None, promise = None\<rparr>,
                                attempts = [], calls = [], queue = []\<rparr>
                    | Some s \<Rightarrow> s\<lparr>mongoUrl := url\<rparr>))"

text \<open>
  \<open>connectToDatabase()\<close> from its entry to its first suspension. With \<open>cached.conn\<close> set
  it returns at once. Otherwise, when \<open>cached.promise\<close> is null, it calls
  \<open>mongoose.connect\<close> and stores the promise; then it awaits \<open>cached.promise\<close>: the call
  is registered with a pending promise, and scheduled for resumption when the promise is
  settled already.
\<close>

definition connectToDatabase :: "system \<Rightarrow> system" where
  "connectToDatabase s =
     (let c = length (calls s)
      in case conn (cached s) of
           Some h \<Rightarrow> s\<lparr>calls := calls s @ [Returned h]\<rparr>
         | None \<Rightarrow>
             (let (s1, a) = (case promise (cached s) of
                               None \<Rightarrow>
                                 (s\<lparr>attempts := attempts s @
                                      [\<lparr>connectP = Pending, cachedP = Pending, waiters = []\<rparr>],
                                    cached := (cached s)\<lparr>promise := Some (length (attempts s))\<rparr>\<rparr>,
                                  length (attempts s))
                             | Some p \<Rightarrow> (s, p));
                  s2 = s1\<lparr>calls := calls s1 @ [Awaiting a]\<rparr>
              in if a < length (attempts s2) \<and> cachedP (attempts s2 ! a) \<noteq> Pending
                 then s2\<lparr>queue := queue s2 @ [Resume c a]\<rparr>
                 else s2\<lparr>attempts := (attempts s2)
                            [a := (attempts s2 ! a)\<lparr>waiters := waiters (attempts s2 ! a) @ [c]\<rparr>]\<rparr>))"

text \<open>
  One microtask. The reaction of \<open>.then\<close> hands the outcome on to \<open>.catch\<close>. The
  reaction of \<open>.catch\<close> runs its callback after a rejection, which sets
  \<open>cached.promise = null\<close> and throws again; either way the stored promise is settled and
  the waiting calls are scheduled. A resumed call stores the connection in \<open>cached.conn\<close>
  and returns it, or runs its \<open>catch\<close> block, which sets \<open>cached.promise = null\<close> and
  \<open>cached.conn = null\<close>, and throws.
\<close>

fun run_job :: "job \<Rightarrow> system \<Rightarrow> system" where
  "run_job (ThenJob a) s = s\<lparr>queue := queue s @ [CatchJob a]\<rparr>"
| "run_job (CatchJob a) s =
     (let at = attempts s ! a;
          rejected = (connectP at = Rejected);
          s1 = (if rejected then s\<lparr>cached := (cached s)\<lparr>promise := None\<rparr>\<rparr> else s)
      in s1\<lparr>attempts := (attempts s1)
               [a := at\<lparr>cachedP := (if rejected then Rejected else Fulfilled), waiters := []\<rparr>],
             queue := queue s1 @ map (\<lambda>c. Resume c a) (waiters at)\<rparr>)"
| "run_job (Resume c a) s =
     (if cachedP (attempts s ! a) = Fulfilled
      then s\<lparr>cached := (cached s)\<lparr>conn := Some a\<rparr>, calls := (calls s)[c := Returned a]\<rparr>
      else s\<lparr>cached := \<lparr>conn = None, promise = None\<rparr>, calls := (calls s)[c := Threw a]\<rparr>)"
| "run_job (App AppCall) s = connectToDatabase s"
| "run_job (App (AppAwait k)) s = s\<lparr>queue := queue s @ [App k]\<rparr>"

text \<open>
  What happens inside one task of the event loop, in order: the application calls
  \<open>connectToDatabase\<close>, the driver settles the promise of a pending attempt, or the
  application starts code that continues in a microtask.
\<close>

datatype action =
  Call
| Settle nat bool
| Spawn app

fun run_action :: "action \<Rightarrow> system \<Rightarrow> system option" where
  "run_action Call s = Some (connectToDatabase s)"
| "run_action (Settle a ok) s =
     (if a < length (attempts s) \<and> connectP (attempts s ! a) = Pending
      then Some (s\<lparr>attempts := (attempts s)
                      [a := (attempts s ! a)\<lparr>connectP := (if ok then Fulfilled else Rejected)\<rparr>],
                    queue := queue s @ [ThenJob a]\<rparr>)
      else None)"
| "run_action (Spawn k) s = Some (s\<lparr>queue := queue s @ [App k]\<rparr>)"

fun run_actions :: "action list \<Rightarrow> system \<Rightarrow> system option" where
  "run_actions [] s = Some s"
| "run_actions (x # xs) s =
     (case run_action x s of None \<Rightarrow> None | Some s' \<Rightarrow> run_actions xs s')"

text \<open>
  The event loop: a task starts only when no microtask is left, and the microtasks run
  one at a time from the front of the queue. \<open>None\<close> marks a schedule that the run time
  cannot produce.
\<close>

datatype event_loop_step =
  Task "action list"
| Microtask

fun loop_step :: "event_loop_step \<Rightarrow> system \<Rightarrow> system option" where
  "loop_step (Task xs) s = (if queue s = [] then run_actions xs s else None)"
| "loop_step Microtask s =
     (case queue s of [] \<Rightarrow> None | j # q \<Rightarrow> Some (run_job j (s\<lparr>queue := q\<rparr>)))"

fun run_loop :: "event_loop_step list \<Rightarrow> system \<Rightarrow> system option" where
  "run_loop [] s = Some s"
| "run_loop (x # xs) s =
     (case loop_step x s of None \<Rightarrow> None | Some s' \<Rightarrow> run_loop xs s')"

text \<open>The attempts whose \<open>mongoose.connect\<close> has not settled yet.\<close>

definition in_flight :: "system \<Rightarrow> nat" where
  "in_flight s = length (filter (\<lambda>a. connectP a = Pending) (attempts s))"

section \<open>Notions used in the statements\<close>

text \<open>No two neighbouring code units of the string are both separators.\<close>

fun adjSepFree :: "jsstring \<Rightarrow> bool" where
  "adjSepFree [] = True"
| "adjSepFree [c] = True"
| "adjSepFree (c # d # cs) = (\<not> (isSep c \<and> isSep d) \<and> adjSepFree (d # cs))"

text \<open>
  An engine for the examples: it lower-cases the ASCII letters only, knows no date format
  of its own, and runs in the UTC time zone.
\<close>

definition example_engine :: engine where
  "example_engine =
     \<lparr>unicodeLower = map asciiLower, parseFallback = (\<lambda>s. None),
      LocalTZA = (\<lambda>t u. 0), tzName = (\<lambda>t. js '' (Coordinated Universal Time)'')\<rparr>"

text \<open>
  \<open>validEventData\<close> of the test suite, and \<open>new Event(data)\<close>: a document that was never
  saved, with every path of the data assigned.
\<close>

definition validEventData :: event where
  "validEventData =
     \<lparr>title = js ''Test Event'', slug = [], description = js ''Test description'',
      overview = js ''Test overview'', image_url = js ''https://example.com/image.jpg'',
      venue = js ''Test Venue'', location = js ''Test Location'', date = js ''2024-12-15'',
      time = js ''09:00'', mode = js ''online'', audience = js ''Everyone'',
      agenda = [js ''Item 1''], organizer = js ''Organizer'', tags = [js ''tag1'']\<rparr>"

definition new_Event :: "event \<Rightarrow> event document" where
  "new_Event e =
     \<lparr>content = e, isNew = True,
      modifiedPaths = {''title'', ''description'', ''overview'', ''image'', ''venue'',
        ''location'', ''date'', ''time'', ''mode'', ''audience'', ''agenda'', ''organizer'',
        ''tags''}\<rparr>"

text \<open>A document as it is after a save or a load: not new, nothing modified.\<close>

definition saved_Event :: "event \<Rightarrow> event document" where
  "saved_Event e = \<lparr>content = e, isNew = False, modifiedPaths = {}\<rparr>"

text \<open>A calendar date written \<open>YYYY-MM-DD\<close>.\<close>

definition canonicalDate :: "int \<Rightarrow> int \<Rightarrow> int \<Rightarrow> jsstring" where
  "canonicalDate y m d = pad 4 y @ js ''-'' @ pad 2 m @ js ''-'' @ pad 2 d"

text \<open>A new booking for some event, with the given e-mail address.\<close>

definition sample_booking :: "jsstring \<Rightarrow> booking document" where
  "sample_booking e =
     \<lparr>content = \<lparr>eventId = Some (js ''507f1f77bcf86cd799439011''), email = Some e\<rparr>,
      isNew = True, modifiedPaths = {''eventId'', ''email''}\<rparr>"

text \<open>
  The Event model is registered, as it is once \<open>event.model\<close> has been imported, and
  \<open>Event.exists\<close> does as given.
\<close>

definition registered :: "(jsstring option \<Rightarrow> exists_outcome) \<Rightarrow> models" where
  "registered ex = \<lparr>models_Event = True, import_event_model = Loaded, Event_exists = ex\<rparr>"

text \<open>The state after the first load of the module in a process.\<close>

definition initial_system :: "jsstring \<Rightarrow> system" where
  "initial_system url =
     \<lparr>mongoUrl = url, cached = \<lparr>conn = None, promise = None\<rparr>, attempts = [], calls = [],
      queue = []\<rparr>"

text \<open>
  A schedule of three calls. The first call starts attempt 0. In the task in which the
  driver rejects that attempt, the application starts code that awaits twice and then
  calls \<open>connectToDatabase\<close>, as in
  \<^verbatim>\<open>(async () => { await null; await null; await connectToDatabase(); })()\<close>.
  Five microtasks follow: the reaction of \<open>.then\<close>, the first continuation of the
  application, the reaction of \<open>.catch\<close>, the second continuation of the application
  (the second call), and the resumption of the first call. The last task makes the third
  call.
\<close>

definition clobber_schedule :: "event_loop_step list" where
  "clobber_schedule =
     [Task [Call],
      Task [Settle 0 False, Spawn (AppAwait AppCall)],
      Microtask, Microtask, Microtask, Microtask, Microtask,
      Task [Call]]"

text \<open>
  The conditions on an e-mail address in the words of the specification: not empty, at most
  254 code units, no white space, exactly one \<open>@\<close>, and something on either side of it.
\<close>

definition spec_email_ok :: "jsstring \<Rightarrow> bool" where
  "spec_email_ok e =
     (e \<noteq> [] \<and> length e \<le> 254 \<and> (\<forall>c \<in> set e. \<not> isSpace c) \<and>
      count_list e (of_char CHR ''@'') = 1 \<and>
      takeWhile (\<lambda>c. c \<noteq> of_char CHR ''@'') e \<noteq> [] \<and>
      tl (dropWhile (\<lambda>c. c \<noteq> of_char CHR ''@'') e) \<noteq> [])"

text \<open>
  Schedules on which no connection attempt fails, and the invariant they keep: at most one
  attempt was ever started, the cache holds its promise as long as the attempt exists,
  nothing is rejected, and every reaction in the queue refers to an attempt that exists (a
  resumption only to one whose cached promise is fulfilled).
\<close>

fun settles_ok :: "action \<Rightarrow> bool" where
  "settles_ok (Settle a ok) = ok"
| "settles_ok x = True"

fun no_failure :: "event_loop_step \<Rightarrow> bool" where
  "no_failure (Task xs) = list_all settles_ok xs"
| "no_failure Microtask = True"

fun job_ok :: "attempt list \<Rightarrow> job \<Rightarrow> bool" where
  "job_ok as (ThenJob a) = (a < length as)"
| "job_ok as (CatchJob a) = (a < length as)"
| "job_ok as (Resume c a) = (a < length as \<and> cachedP (as ! a) = Fulfilled)"
| "job_ok as (App k) = True"

definition calm :: "system \<Rightarrow> bool" where
  "calm s =
     (length (attempts s) \<le> 1 \<and>
      (promise (cached s) = None \<longrightarrow> attempts s = []) \<and>
      (\<forall>a. promise (cached s) = Some a \<longrightarrow> a < length (attempts s)) \<and>
      (\<forall>a \<in> set (attempts s). connectP a \<noteq> Rejected \<and> cachedP a \<noteq> Rejected) \<and>
      (\<forall>j \<in> set (queue s). job_ok (attempts s) j))"

section \<open>Slug derivation: shape and idempotence\<close>

lemma isWord_not_isSpace: "isWord c \<Longrightarrow> \<not> isSpace c"
  by (auto simp: isWord_def isSpace_def isUpperAZ_def isLowerAZ_def isDigit_def underscore_def)

lemma asciiLower_not_upper: "\<not> isUpperAZ (asciiLower c)"
  by (auto simp: asciiLower_def isUpperAZ_def)

lemma toLowerCase_no_upper:
  assumes "\<forall>s. \<forall>c \<in> set (unicodeLower E s). \<not> isUpperAZ c"
      and "c \<in> set (toLowerCase E t)"
  shows "\<not> isUpperAZ c"
proof (cases "list_all (\<lambda>c. c < 128) t")
  case True
  with assms(2) show ?thesis by (auto simp: toLowerCase_def asciiLower_not_upper)
next
  case False
  with assms show ?thesis by (simp add: toLowerCase_def)
qed

lemma dropWhile_none: "(\<And>x. x \<in> set s \<Longrightarrow> \<not> P x) \<Longrightarrow> dropWhile P s = s"
  by (cases s) simp_all

lemma set_strip_both: "set (rev (dropWhile P (rev (dropWhile P s)))) \<subseteq> set s"
proof
  fix x
  assume "x \<in> set (rev (dropWhile P (rev (dropWhile P s))))"
  then have "x \<in> set (dropWhile P (rev (dropWhile P s)))" by simp
  then have "x \<in> set (rev (dropWhile P s))" by (rule set_dropWhileD)
  then have "x \<in> set (dropWhile P s)" by simp
  then show "x \<in> set s" by (rule set_dropWhileD)
qed

lemma set_trim: "set (trim s) \<subseteq> set s"
  unfolding trim_def by (rule set_strip_both)

lemma set_stripEdgeHyphens: "set (stripEdgeHyphens s) \<subseteq> set s"
  unfolding stripEdgeHyphens_def by (rule set_strip_both)

lemma set_collapseSep: "c \<in> set (collapseSep s) \<Longrightarrow> c = hyphen \<or> (c \<in> set s \<and> \<not> isSep c)"
  by (induction s rule: collapseSep.induct) (auto split: if_splits dest: set_dropWhileD)

lemma collapseSep_Nil_iff: "collapseSep s = [] \<longleftrightarrow> s = []"
  by (cases s) auto

lemma hd_collapseSep: "s \<noteq> [] \<Longrightarrow> \<not> isSep (hd s) \<Longrightarrow> \<not> isSep (hd (collapseSep s))"
  by (cases s) auto

lemma adjSepFree_Cons:
  "adjSepFree xs \<Longrightarrow> (xs \<noteq> [] \<Longrightarrow> \<not> (isSep c \<and> isSep (hd xs))) \<Longrightarrow> adjSepFree (c # xs)"
  by (cases xs) auto

lemma adjSepFree_collapseSep: "adjSepFree (collapseSep s)"
proof (induction s rule: collapseSep.induct)
  case 1
  show ?case by simp
next
  case (2 c cs)
  show ?case
  proof (cases "isSep c")
    case True
    let ?r = "dropWhile isSep cs"
    have "?r \<noteq> [] \<Longrightarrow> \<not> isSep (hd ?r)" by (rule hd_dropWhile)
    then have "collapseSep ?r \<noteq> [] \<Longrightarrow> \<not> isSep (hd (collapseSep ?r))"
      by (simp add: collapseSep_Nil_iff hd_collapseSep)
    with 2 True show ?thesis by (simp add: adjSepFree_Cons)
  next
    case False
    with 2 show ?thesis by (simp add: adjSepFree_Cons)
  qed
qed

lemma adjSepFree_append: "adjSepFree (xs @ ys) \<Longrightarrow> adjSepFree xs \<and> adjSepFree ys"
proof (induction xs rule: adjSepFree.induct)
  case 1
  then show ?case by simp
next
  case (2 c)
  then show ?case by (cases ys) auto
next
  case (3 c d cs)
  then show ?case by auto
qed

lemma adjSepFree_stripEdgeHyphens: "adjSepFree s \<Longrightarrow> adjSepFree (stripEdgeHyphens s)"
proof -
  assume a: "adjSepFree s"
  let ?H = "\<lambda>c. c = hyphen"
  let ?d = "dropWhile ?H s"
  have "s = takeWhile ?H s @ ?d" by simp
  with a have d: "adjSepFree ?d" using adjSepFree_append by metis
  have "rev ?d = takeWhile ?H (rev ?d) @ dropWhile ?H (rev ?d)" by simp
  then have "?d = rev (dropWhile ?H (rev ?d)) @ rev (takeWhile ?H (rev ?d))"
    by (metis rev_append rev_rev_ident)
  with d have "adjSepFree (rev (dropWhile ?H (rev ?d)))" using adjSepFree_append by metis
  then show ?thesis by (simp add: stripEdgeHyphens_def)
qed


lemma stripEdgeHyphens_hd: "stripEdgeHyphens s \<noteq> [] \<Longrightarrow> hd (stripEdgeHyphens s) \<noteq> hyphen"
proof -
  let ?H = "\<lambda>c. c = hyphen"
  let ?d = "dropWhile ?H s"
  assume ne: "stripEdgeHyphens s \<noteq> []"
  have "stripEdgeHyphens s = []" if "?d = []"
    unfolding stripEdgeHyphens_def that by simp
  with ne have dne: "?d \<noteq> []" by blast
  then have h: "hd ?d \<noteq> hyphen" using hd_dropWhile[of ?H s] by simp
  have "rev ?d = takeWhile ?H (rev ?d) @ dropWhile ?H (rev ?d)" by simp
  then have "?d = stripEdgeHyphens s @ rev (takeWhile ?H (rev ?d))"
    unfolding stripEdgeHyphens_def by (metis rev_append rev_rev_ident)
  then have "hd ?d = hd (stripEdgeHyphens s)" using ne by (metis hd_append2)
  with h show ?thesis by simp
qed

lemma stripEdgeHyphens_last: "stripEdgeHyphens s \<noteq> [] \<Longrightarrow> last (stripEdgeHyphens s) \<noteq> hyphen"
proof -
  let ?H = "\<lambda>c. c = hyphen"
  let ?r = "dropWhile ?H (rev (dropWhile ?H s))"
  assume ne: "stripEdgeHyphens s \<noteq> []"
  then have rne: "?r \<noteq> []" by (simp add: stripEdgeHyphens_def)
  then have "hd ?r \<noteq> hyphen" using hd_dropWhile[of ?H "rev (dropWhile ?H s)"] by simp
  then show ?thesis using rne by (simp add: stripEdgeHyphens_def last_rev)
qed

lemma slugify_chars:
  assumes "\<forall>s. \<forall>c \<in> set (unicodeLower E s). \<not> isUpperAZ c"
      and "c \<in> set (slugify E t)"
  shows "c = hyphen \<or> (isWord c \<and> \<not> isUpperAZ c \<and> c \<noteq> underscore)"
proof -
  from assms(2) have "c \<in> set (collapseSep (removeSpecial (trim (toLowerCase E t))))"
    using set_stripEdgeHyphens by (auto simp: slugify_def)
  then have "c = hyphen \<or> (c \<in> set (removeSpecial (trim (toLowerCase E t))) \<and> \<not> isSep c)"
    by (rule set_collapseSep)
  then show ?thesis
  proof
    assume "c = hyphen" then show ?thesis ..
  next
    assume a: "c \<in> set (removeSpecial (trim (toLowerCase E t))) \<and> \<not> isSep c"
    then have w: "isWord c" and u: "c \<noteq> underscore" by (auto simp: removeSpecial_def isSep_def)
    from a have "c \<in> set (toLowerCase E t)" using set_trim by (auto simp: removeSpecial_def)
    then have "\<not> isUpperAZ c" by (rule toLowerCase_no_upper[OF assms(1)])
    with w u show ?thesis by simp
  qed
qed

lemma adjSepFree_slugify: "adjSepFree (slugify E t)"
  unfolding slugify_def by (rule adjSepFree_stripEdgeHyphens) (rule adjSepFree_collapseSep)

lemma collapseSep_fixed:
  "adjSepFree s \<Longrightarrow> (\<And>c. c \<in> set s \<Longrightarrow> isSep c \<Longrightarrow> c = hyphen) \<Longrightarrow> collapseSep s = s"
proof (induction s rule: collapseSep.induct)
  case 1
  show ?case by simp
next
  case (2 c cs)
  have fr: "adjSepFree cs" using 2(3) by (cases cs) auto
  show ?case
  proof (cases "isSep c")
    case True
    then have ch: "c = hyphen" using 2(4) by simp
    have "cs = [] \<or> \<not> isSep (hd cs)" using 2(3) True by (cases cs) auto
    then have dw: "dropWhile isSep cs = cs" by (simp add: dropWhile_eq_self_iff)
    have "collapseSep cs = cs" using 2(1)[OF True] dw fr 2(4) by simp
    with True ch dw show ?thesis by simp
  next
    case False
    have "collapseSep cs = cs" using 2(2)[OF False] fr 2(4) by simp
    with False show ?thesis by simp
  qed
qed

lemma slugify_ascii_lower:
  assumes "\<forall>s. \<forall>c \<in> set (unicodeLower E s). \<not> isUpperAZ c"
  shows "toLowerCase E (slugify E t) = slugify E t"
proof -
  let ?s = "slugify E t"
  have ch: "c = hyphen \<or> (isWord c \<and> \<not> isUpperAZ c \<and> c \<noteq> underscore)" if "c \<in> set ?s" for c
    using slugify_chars[OF assms that] .
  have "c < 128" if "c \<in> set ?s" for c
    using ch[OF that]
    by (auto simp: hyphen_def isWord_def isUpperAZ_def isLowerAZ_def isDigit_def underscore_def)
  then have ascii: "list_all (\<lambda>c. c < 128) ?s" by (simp add: list_all_iff)
  have "\<not> isUpperAZ c" if "c \<in> set ?s" for c
    using ch[OF that] by (auto simp: hyphen_def isUpperAZ_def)
  then have "map asciiLower ?s = ?s"
    by (intro map_idI) (simp add: asciiLower_def)
  with ascii show ?thesis by (simp add: toLowerCase_def)
qed

lemma slugify_fixed:
  assumes "\<forall>s. \<forall>c \<in> set (unicodeLower E s). \<not> isUpperAZ c"
  shows "slugify E (slugify E t) = slugify E t"
proof -
  let ?s = "slugify E t"
  have ch: "c = hyphen \<or> (isWord c \<and> \<not> isUpperAZ c \<and> c \<noteq> underscore)" if "c \<in> set ?s" for c
    using slugify_chars[OF assms that] .
  have 1: "toLowerCase E ?s = ?s" by (rule slugify_ascii_lower[OF assms])
  have nosp: "\<not> isSpace c" if "c \<in> set ?s" for c
    using ch[OF that] isWord_not_isSpace[of c] by (auto simp: isSpace_def hyphen_def)
  then have dw: "dropWhile isSpace ?s = ?s" by (rule dropWhile_none)
  have "dropWhile isSpace (rev ?s) = rev ?s" by (rule dropWhile_none) (simp add: nosp)
  with dw have 2: "trim ?s = ?s" by (simp add: trim_def)
  have "isWord c \<or> isSpace c \<or> c = hyphen" if "c \<in> set ?s" for c
    using ch[OF that] by auto
  then have 3: "removeSpecial ?s = ?s" unfolding removeSpecial_def by (intro filter_True) simp
  have "c = hyphen" if "c \<in> set ?s" "isSep c" for c
    using ch[OF that(1)] that(2) isWord_not_isSpace[of c] by (auto simp: isSep_def)
  with adjSepFree_slugify have 4: "collapseSep ?s = ?s" by (rule collapseSep_fixed)
  have h: "?s \<noteq> [] \<Longrightarrow> hd ?s \<noteq> hyphen" unfolding slugify_def by (rule stripEdgeHyphens_hd)
  have l: "?s \<noteq> [] \<Longrightarrow> last ?s \<noteq> hyphen" unfolding slugify_def by (rule stripEdgeHyphens_last)
  have d1: "dropWhile (\<lambda>c. c = hyphen) ?s = ?s"
    using h by (cases "?s = []") (simp_all add: dropWhile_eq_self_iff)
  have "dropWhile (\<lambda>c. c = hyphen) (rev ?s) = rev ?s"
    using l by (cases "?s = []") (simp_all add: dropWhile_eq_self_iff hd_rev)
  with d1 have 5: "stripEdgeHyphens ?s = ?s" by (simp add: stripEdgeHyphens_def)
  have "slugify E ?s = stripEdgeHyphens (collapseSep (removeSpecial (trim (toLowerCase E ?s))))"
    by (simp add: slugify_def)
  also have "\<dots> = ?s" using 1 2 3 4 5 by simp
  finally show ?thesis .
qed

lemmas char_class_defs =
  js_def hyphen_def underscore_def isUpperAZ_def isLowerAZ_def isDigit_def isWord_def
  isSpace_def isSep_def asciiLower_def

lemmas slug_defs =
  slugify_def toLowerCase_def trim_def removeSpecial_def stripEdgeHyphens_def

lemma example_engine_lower: "\<forall>s. \<forall>c \<in> set (unicodeLower example_engine s). \<not> isUpperAZ c"
  by (simp add: example_engine_def asciiLower_not_upper)

section \<open>The Event hook as one expression\<close>

text \<open>
  What the hook computes, written with the three normalised values side by side: each is
  the new value when its source path is new or modified, and the stored one otherwise.
\<close>

lemma event_pre_save_flat:
  "event_pre_save E d =
     (let sl = (if isNew d \<or> isModified d ''title''
                then toLowerCase E (slugify E (title (content d))) else slug (content d));
          dr = (if isNew d \<or> isModified d ''date''
                then normalize_date E (date (content d)) else Inr (date (content d)));
          tr = (if isNew d \<or> isModified d ''time''
                then normalize_time E (time (content d)) else Inr (time (content d)))
      in case dr of
           Inl e \<Rightarrow> (d\<lparr>content := (content d)\<lparr>slug := sl\<rparr>\<rparr>, Some e)
         | Inr dv \<Rightarrow>
             (case tr of
                Inl e \<Rightarrow> (d\<lparr>content := (content d)\<lparr>slug := sl, date := dv\<rparr>\<rparr>, Some e)
              | Inr tv \<Rightarrow>
                  (d\<lparr>content := (content d)\<lparr>slug := sl, date := dv, time := tv\<rparr>\<rparr>,
                   array_guard d)))"
  unfolding event_pre_save_def slug_step_def date_step_def time_step_def Let_def isModified_def
  by (cases "isNew d"; cases "''title'' \<in> modifiedPaths d"; cases "''date'' \<in> modifiedPaths d";
      cases "''time'' \<in> modifiedPaths d";
      cases "normalize_date E (date (content d))"; cases "normalize_time E (time (content d))";
      simp add: array_guard_def)

lemma event_pre_save_slug:
  "slug (content (fst (event_pre_save E d))) =
     (if isNew d \<or> isModified d ''title''
      then toLowerCase E (slugify E (title (content d))) else slug (content d))"
  by (simp add: event_pre_save_flat Let_def split: sum.splits)



section \<open>Claims about the slug\<close>



text \<open>
  Claim C9. Provided the engine's lower-casing leaves no \<open>A-Z\<close> behind, deriving the slug
  of a slug gives the same slug.
\<close>

theorem slug_idempotent:
  assumes "\<forall>s. \<forall>c \<in> set (unicodeLower E s). \<not> isUpperAZ c"
  shows "slugify E (slugify E T) = slugify E T"
  using assms by (rule slugify_fixed)

theorem slug_idempotent_witness:
  "slugify example_engine (slugify example_engine (js ''  Trimmed---Title!!  '')) =
       slugify example_engine (js ''  Trimmed---Title!!  '')
   \<and> slugify example_engine (js ''  Trimmed---Title!!  '') = js ''trimmed-title''"
  using slug_idempotent[OF example_engine_lower, of "js ''  Trimmed---Title!!  ''"]
  by (simp add: slug_defs char_class_defs)

section \<open>The calendar\<close>

text \<open>
  \<open>YearFromDay\<close> is the year of ECMAScript's \<open>YearFromTime\<close>: the one year whose first
  day is not after the given day and whose successor's first day is.
\<close>

lemma int_div_bounds:
  fixes a k :: int
  assumes "0 < k"
  shows "k * (a div k) \<le> a" and "a < k * (a div k) + k"
proof -
  have "k * (a div k) + a mod k = a" by simp
  moreover have "0 \<le> a mod k" "a mod k < k" using assms by simp_all
  ultimately show "k * (a div k) \<le> a" and "a < k * (a div k) + k" by linarith+
qed

lemma DayFromYear_estimate:
  "146097 * (y - 1970) - 506 \<le> 400 * DayFromYear y"
  "400 * DayFromYear y \<le> 146097 * (y - 1970) + 589"
proof -
  define a where "a = (y - 1969) div 4"
  define b where "b = (y - 1901) div 100"
  define c where "c = (y - 1601) div 400"
  have ba: "4 * a \<le> y - 1969" "y - 1969 < 4 * a + 4"
    unfolding a_def by (rule int_div_bounds; simp)+
  have bb: "100 * b \<le> y - 1901" "y - 1901 < 100 * b + 100"
    unfolding b_def by (rule int_div_bounds; simp)+
  have bc: "400 * c \<le> y - 1601" "y - 1601 < 400 * c + 400"
    unfolding c_def by (rule int_div_bounds; simp)+
  have "DayFromYear y = 365 * (y - 1970) + a - b + c"
    by (simp only: DayFromYear_def a_def b_def c_def)
  then have D: "400 * DayFromYear y = 146000 * y + 400 * a - 400 * b + 400 * c - 287620000"
    by simp
  have L: "146097 * (y - 1970) = 146097 * y - 287811090" by simp
  show "146097 * (y - 1970) - 506 \<le> 400 * DayFromYear y"
    unfolding D L using ba bb bc by linarith
  show "400 * DayFromYear y \<le> 146097 * (y - 1970) + 589"
    unfolding D L using ba bb bc by linarith
qed

lemma YearFromDay_bounds:
  "DayFromYear (YearFromDay d) \<le> d \<and> d < DayFromYear (YearFromDay d + 1)"
proof -
  define q where "q = (400 * d) div 146097"
  define y where "y = 1970 + q"
  have q: "146097 * q \<le> 400 * d" "400 * d < 146097 * q + 146097"
    unfolding q_def by (rule int_div_bounds; simp)+
  have "400 * DayFromYear (y - 1) \<le> 146097 * (y - 1 - 1970) + 589"
    by (rule DayFromYear_estimate)
  then have "400 * DayFromYear (y - 1) \<le> 146097 * q - 145508"
    unfolding y_def by simp
  with q have lo: "DayFromYear (y - 1) \<le> d" by linarith
  have "146097 * (y + 1 + 1 - 1970) - 506 \<le> 400 * DayFromYear (y + 1 + 1)"
    by (rule DayFromYear_estimate)
  then have "146097 * q + 291688 \<le> 400 * DayFromYear (y + 1 + 1)"
    unfolding y_def by simp
  with q have hi: "d < DayFromYear (y + 1 + 1)" by linarith
  have yd: "YearFromDay d =
      (if DayFromYear (y + 1) \<le> d then y + 1 else if DayFromYear y \<le> d then y else y - 1)"
    by (simp only: YearFromDay_def Let_def y_def q_def)
  show ?thesis
  proof (cases "DayFromYear (y + 1) \<le> d")
    case True
    with hi show ?thesis unfolding yd by simp
  next
    case False
    note F = this
    show ?thesis
    proof (cases "DayFromYear y \<le> d")
      case True
      with F show ?thesis unfolding yd by simp
    next
      case False
      with F lo show ?thesis unfolding yd by simp
    qed
  qed
qed

lemma int_div_succ:
  fixes x k :: int
  assumes "0 < k"
  shows "(x + 1) div k = x div k + (if (x + 1) mod k = 0 then 1 else 0)"
proof -
  define q where "q = x div k"
  define r where "r = x mod k"
  have x: "x = k * q + r" and r: "0 \<le> r" "r < k"
    unfolding q_def r_def using assms by simp_all
  show ?thesis
  proof (cases "r = k - 1")
    case True
    then have e: "x + 1 = k * (q + 1) + 0" using x by (simp add: algebra_simps)
    have "(x + 1) div k = q + 1" by (rule int_div_pos_eq[OF e]) (use assms in simp_all)
    moreover have "(x + 1) mod k = 0" by (rule int_mod_pos_eq[OF e]) (use assms in simp_all)
    ultimately show ?thesis by (simp add: q_def)
  next
    case False
    then have r1: "0 \<le> r + 1" "r + 1 < k" using r by simp_all
    have e: "x + 1 = k * q + (r + 1)" using x by simp
    have "(x + 1) div k = q" by (rule int_div_pos_eq[OF e r1])
    moreover have "(x + 1) mod k = r + 1" by (rule int_mod_pos_eq[OF e r1])
    ultimately show ?thesis using r by (simp add: q_def)
  qed
qed

lemma DayFromYear_step: "DayFromYear (y + 1) = DayFromYear y + DaysInYear y"
proof -
  have m4: "(y - 1969 + 1) mod 4 = y mod 4"
    using mod_mult_self2[of y 4 "-492"] by simp
  have m100: "(y - 1901 + 1) mod 100 = y mod 100"
    using mod_mult_self2[of y 100 "-19"] by simp
  have m400: "(y - 1601 + 1) mod 400 = y mod 400"
    using mod_mult_self2[of y 400 "-4"] by simp
  have a: "(y + 1 - 1969) div 4 = (y - 1969) div 4 + (if y mod 4 = 0 then 1 else 0)"
    using int_div_succ[of 4 "y - 1969"] m4 by (simp add: algebra_simps)
  have b: "(y + 1 - 1901) div 100 = (y - 1901) div 100 + (if y mod 100 = 0 then 1 else 0)"
    using int_div_succ[of 100 "y - 1901"] m100 by (simp add: algebra_simps)
  have c: "(y + 1 - 1601) div 400 = (y - 1601) div 400 + (if y mod 400 = 0 then 1 else 0)"
    using int_div_succ[of 400 "y - 1601"] m400 by (simp add: algebra_simps)
  have d1: "y mod 100 = 0" if "y mod 400 = 0"
    using that mod_mod_cancel[of 100 400 y] by simp
  have d2: "y mod 4 = 0" if "y mod 100 = 0"
    using that mod_mod_cancel[of 4 100 y] by simp
  show ?thesis
    unfolding DayFromYear_def DaysInYear_def a b c using d1 d2 by auto
qed

lemma DayFromYear_mono: "y \<le> z \<Longrightarrow> DayFromYear y \<le> DayFromYear z"
proof -
  assume "y \<le> z"
  then obtain n where z: "z = y + int n" by (metis zle_iff_zadd)
  have "DayFromYear y \<le> DayFromYear (y + int n)"
  proof (induction n)
    case 0 show ?case by simp
  next
    case (Suc n)
    have "DayFromYear (y + int (Suc n)) = DayFromYear (y + int n) + DaysInYear (y + int n)"
      using DayFromYear_step[of "y + int n"] by (simp add: add.commute add.left_commute)
    moreover have "0 < DaysInYear (y + int n)" by (simp add: DaysInYear_def)
    ultimately show ?case using Suc by linarith
  qed
  with z show ?thesis by simp
qed

lemma YearFromDay_unique:
  assumes "DayFromYear y \<le> d" "d < DayFromYear (y + 1)"
  shows "YearFromDay d = y"
proof (rule ccontr)
  assume ne: "YearFromDay d \<noteq> y"
  let ?z = "YearFromDay d"
  from YearFromDay_bounds[of d] have b: "DayFromYear ?z \<le> d" "d < DayFromYear (?z + 1)" by simp_all
  from ne consider "?z + 1 \<le> y" | "y + 1 \<le> ?z" by linarith
  then show False
  proof cases
    case 1
    from DayFromYear_mono[OF this] b assms show False by linarith
  next
    case 2
    from DayFromYear_mono[OF this] b assms show False by linarith
  qed
qed

text \<open>
  Back and forth: the day made from a calendar date has that year, month and day of the
  month, and a date written \<open>YYYY-MM-DD\<close> is parsed to midnight UTC of that day.
\<close>

lemma Day_MakeDate: "0 \<le> tm \<Longrightarrow> tm < msPerDay \<Longrightarrow> Day (MakeDate day tm) = day"
  unfolding Day_def MakeDate_def msPerDay_def
  by (rule int_div_pos_eq[where r = tm]) simp_all

lemma DaysInYear_cases: "DaysInYear y = 365 \<or> DaysInYear y = 366"
  by (simp add: DaysInYear_def)

lemma MakeDay_within_year:
  assumes "0 \<le> m" "m \<le> 11" "1 \<le> d" "d \<le> DaysInMonth y (m + 1)"
  shows "0 \<le> MakeDay y m d - DayFromYear y" "MakeDay y m d - DayFromYear y < DaysInYear y"
proof -
  have "m = 0 \<or> m = 1 \<or> m = 2 \<or> m = 3 \<or> m = 4 \<or> m = 5 \<or> m = 6 \<or> m = 7 \<or> m = 8 \<or>
         m = 9 \<or> m = 10 \<or> m = 11"
    using assms(1,2) by presburger
  then have "0 \<le> MakeDay y m d - DayFromYear y \<and> MakeDay y m d - DayFromYear y < DaysInYear y"
    using assms(3,4) DaysInYear_cases[of y]
    by (elim disjE) (auto simp: MakeDay_def monthStart_def DaysInMonth_def)
  then show "0 \<le> MakeDay y m d - DayFromYear y" "MakeDay y m d - DayFromYear y < DaysInYear y"
    by simp_all
qed

lemma YearFromDay_MakeDay:
  assumes "0 \<le> m" "m \<le> 11" "1 \<le> d" "d \<le> DaysInMonth y (m + 1)"
  shows "YearFromDay (MakeDay y m d) = y"
proof (rule YearFromDay_unique)
  show "DayFromYear y \<le> MakeDay y m d" using MakeDay_within_year(1)[OF assms] by simp
  show "MakeDay y m d < DayFromYear (y + 1)"
    using MakeDay_within_year(2)[OF assms] by (simp add: DayFromYear_step)
qed

lemma month_cases:
  fixes m :: int
  assumes "0 \<le> m" "m \<le> 11"
  shows "m = 0 \<or> m = 1 \<or> m = 2 \<or> m = 3 \<or> m = 4 \<or> m = 5 \<or> m = 6 \<or> m = 7 \<or> m = 8 \<or>
         m = 9 \<or> m = 10 \<or> m = 11"
  using assms by presburger

lemma month_of_day:
  fixes l m d w :: int
  assumes "l = 0 \<or> l = 1" "0 \<le> m" "m \<le> 11" "1 \<le> d"
    "d \<le> (if m = 1 then 28 + l else if m = 3 \<or> m = 5 \<or> m = 8 \<or> m = 10 then 30 else 31)"
    "w = monthStart l m + d - 1"
  shows "(if w < 31 then 0
          else if w < 59 + l then 1
          else if w < 90 + l then 2
          else if w < 120 + l then 3
          else if w < 151 + l then 4
          else if w < 181 + l then 5
          else if w < 212 + l then 6
          else if w < 243 + l then 7
          else if w < 273 + l then 8
          else if w < 304 + l then 9
          else if w < 334 + l then 10
          else 11) = m"
  using month_cases[OF assms(2,3)] assms(1,4,5,6)
  by (elim disjE) (simp_all add: monthStart_def)

lemma civil_of_MakeDate:
  assumes "0 \<le> m" "m \<le> 11" "1 \<le> d" "d \<le> DaysInMonth y (m + 1)" "0 \<le> tm" "tm < msPerDay"
  shows "YearFromTime (MakeDate (MakeDay y m d) tm) = y"
    and "MonthFromTime (MakeDate (MakeDay y m d) tm) = m"
    and "DateFromTime (MakeDate (MakeDay y m d) tm) = d"
proof -
  let ?t = "MakeDate (MakeDay y m d) tm"
  define l :: int where "l = (if DaysInYear y = 366 then 1 else 0)"
  have day: "Day ?t = MakeDay y m d" using assms(5,6) by (rule Day_MakeDate)
  show yr: "YearFromTime ?t = y"
    unfolding YearFromTime_def day using assms(1-4) by (rule YearFromDay_MakeDay)
  have leap: "InLeapYear ?t = l"
    by (simp add: InLeapYear_def yr l_def)
  have dwy: "DayWithinYear ?t = monthStart l m + d - 1"
    unfolding DayWithinYear_def day yr by (simp add: MakeDay_def l_def)
  have l01: "l = 0 \<or> l = 1" by (simp add: l_def)
  have dim: "d \<le> (if m = 1 then 28 + l else if m = 3 \<or> m = 5 \<or> m = 8 \<or> m = 10 then 30 else 31)"
    using assms(4) by (auto simp: DaysInMonth_def l_def split: if_splits)
  show mo: "MonthFromTime ?t = m"
    unfolding MonthFromTime_def Let_def leap
    by (rule month_of_day[OF l01 assms(1,2,3) dim dwy])
  show "DateFromTime ?t = d"
    unfolding DateFromTime_def mo dwy leap by simp
qed


lemma isDigit_digitChar: "isDigit (digitChar v)" "int (digitChar v) - 48 = v mod 10"
proof -
  have "0 \<le> v mod 10" "v mod 10 < 10" by simp_all
  then show "isDigit (digitChar v)" "int (digitChar v) - 48 = v mod 10"
    unfolding digitChar_def isDigit_def by simp_all linarith+
qed

lemma digits_pad:
  "digits (n + k) (pad n u @ s) =
     (case digits k s of
        None \<Rightarrow> None
      | Some (w, r) \<Rightarrow> Some ((u mod 10 ^ n) * 10 ^ k + w, r))"
proof (induction n arbitrary: u k s)
  case 0
  show ?case by (simp split: option.splits)
next
  case (Suc n)
  have m: "(u div 10 mod 10 ^ n) * 10 + u mod 10 = u mod 10 ^ Suc n"
  proof -
    have "u mod (10 * 10 ^ n) = 10 * (u div 10 mod 10 ^ n) + u mod 10"
      by (rule zmod_zmult2_eq) simp
    then show ?thesis by simp
  qed
  have "digits (Suc n + k) (pad (Suc n) u @ s) = digits (n + Suc k) (pad n (u div 10) @ digitChar u # s)"
    by simp
  also have "\<dots> = (case digits (Suc k) (digitChar u # s) of
        None \<Rightarrow> None
      | Some (w, r) \<Rightarrow> Some ((u div 10 mod 10 ^ n) * 10 ^ Suc k + w, r))"
    by (rule Suc.IH)
  also have "\<dots> = (case digits k s of
        None \<Rightarrow> None
      | Some (w, r) \<Rightarrow> Some ((u div 10 mod 10 ^ n) * 10 ^ Suc k + ((u mod 10) * 10 ^ k + w), r))"
    by (simp add: isDigit_digitChar split: option.splits)
  also have "\<dots> = (case digits k s of
        None \<Rightarrow> None
      | Some (w, r) \<Rightarrow> Some ((u mod 10 ^ Suc n) * 10 ^ k + w, r))"
  proof -
    have "(u div 10 mod 10 ^ n) * 10 ^ Suc k + ((u mod 10) * 10 ^ k + w) =
          (u mod 10 ^ Suc n) * 10 ^ k + w" for w
      unfolding m[symmetric] by (simp add: algebra_simps)
    then show ?thesis by (simp only:)
  qed
  finally show ?case .
qed

lemma digits_pad_exact:
  assumes "0 \<le> u" "u < 10 ^ n"
  shows "digits n (pad n u @ s) = Some (u, s)"
  using digits_pad[of n 0 u s] assms by simp



lemma parseISO_canonical:
  assumes "0 \<le> y" "y \<le> 9999" "1 \<le> m" "m \<le> 12" "1 \<le> d" "d \<le> DaysInMonth y m"
  shows "parseISO E (canonicalDate y m d) = Some (MakeDate (MakeDay y (m - 1) d) 0)"
proof -
  have d31: "d \<le> 31" using assms(6) by (simp add: DaysInMonth_def split: if_splits)
  have 1: "digits 4 (pad 4 y @ r) = Some (y, r)" for r
    by (rule digits_pad_exact) (use assms in simp_all)
  have 2: "digits 2 (pad 2 m @ r) = Some (m, r)" for r
    by (rule digits_pad_exact) (use assms in simp_all)
  have 3: "digits 2 (pad 2 d @ r) = Some (d, r)" for r
    by (rule digits_pad_exact) (use assms d31 in simp_all)
  have d3: "digits 2 (pad 2 d) = Some (d, [])" using 3[of "[]"] by simp
  show ?thesis
    unfolding parseISO_def canonicalDate_def
    by (simp add: 1 2 d3 optField_def js_def assms del: pad.simps digits.simps)
qed

lemma MakeDay_range:
  assumes "0 \<le> y" "y \<le> 9999" "1 \<le> m" "m \<le> 12" "1 \<le> d" "d \<le> DaysInMonth y m"
  shows "\<bar>MakeDate (MakeDay y (m - 1) d) 0\<bar> \<le> 8640000000000000"
proof -
  have w: "0 \<le> MakeDay y (m - 1) d - DayFromYear y" "MakeDay y (m - 1) d - DayFromYear y < DaysInYear y"
    using MakeDay_within_year[of "m - 1" d y] assms by simp_all
  have "DaysInYear y \<le> 366" by (simp add: DaysInYear_def)
  with w have a: "DayFromYear y \<le> MakeDay y (m - 1) d" "MakeDay y (m - 1) d \<le> DayFromYear y + 366"
    by simp_all
  have "146097 * (y - 1970) - 506 \<le> 400 * DayFromYear y"
       "400 * DayFromYear y \<le> 146097 * (y - 1970) + 589"
    by (rule DayFromYear_estimate)+
  then have "146097 * y - 287811596 \<le> 400 * DayFromYear y"
       "400 * DayFromYear y \<le> 146097 * y - 287810501"
    by simp_all
  with assms(1,2) have "- 1000000 \<le> DayFromYear y" "DayFromYear y \<le> 3000000" by linarith+
  with a have "- 1000000 \<le> MakeDay y (m - 1) d" "MakeDay y (m - 1) d \<le> 4000000" by linarith+
  then show ?thesis unfolding MakeDate_def msPerDay_def by simp
qed

lemma isoDate_canonical:
  assumes "0 \<le> y" "y \<le> 9999" "1 \<le> m" "m \<le> 12" "1 \<le> d" "d \<le> DaysInMonth y m"
  shows "isoDate (MakeDate (MakeDay y (m - 1) d) 0) = canonicalDate y m d"
proof -
  have c: "YearFromTime (MakeDate (MakeDay y (m - 1) d) 0) = y"
    "MonthFromTime (MakeDate (MakeDay y (m - 1) d) 0) = m - 1"
    "DateFromTime (MakeDate (MakeDay y (m - 1) d) 0) = d"
    using civil_of_MakeDate[of "m - 1" d y 0] assms by (simp_all add: msPerDay_def)
  show ?thesis
    unfolding isoDate_def canonicalDate_def c yearString_def using assms(1,2) by simp
qed


section \<open>Claims about the Event hook\<close>

lemmas date_defs =
  Date_parse_def parseISO_def parseTime_def parseOffset_def optField_def TimeClip_def
  MakeDate_def MakeDay_def MakeTime_def DayFromYear_def DaysInYear_def DaysInMonth_def
  monthStart_def msPerDay_def

lemma pad2: "pad 2 v = [digitChar (v div 10), digitChar v]"
  by (simp add: numeral_2_eq_2)

lemma digitChar_not_T: "digitChar d \<noteq> 84"
  by (simp add: digitChar_def)

lemma pad_no_T: "84 \<notin> set (pad n v)"
  by (induction n arbitrary: v) (simp_all add: digitChar_not_T)

lemma isoDate_no_T: "84 \<notin> set (isoDate t)"
  by (simp add: isoDate_def yearString_def pad_no_T js_def)

lemma date_part: "takeWhile (\<lambda>c. c \<noteq> of_char CHR ''T'') (toISOString t) = isoDate t"
proof -
  have "\<forall>c \<in> set (isoDate t). c \<noteq> of_char CHR ''T''" using isoDate_no_T[of t] by auto
  then show ?thesis
    unfolding toISOString_def by (simp add: takeWhile_append2 js_def)
qed

lemma normalize_date_eq:
  "normalize_date E s =
     (case Date_parse E s of
        None \<Rightarrow> Inl (js ''Date must be in a valid format (YYYY-MM-DD or ISO string)'')
      | Some t \<Rightarrow> Inr (isoDate t))"
  unfolding normalize_date_def date_try_def date_part[symmetric]
  by (simp split: option.splits)

lemma normalize_date_canonical:
  assumes "0 \<le> y" "y \<le> 9999" "1 \<le> m" "m \<le> 12" "1 \<le> d" "d \<le> DaysInMonth y m"
  shows "normalize_date E (canonicalDate y m d) = Inr (canonicalDate y m d)"
proof -
  have "Date_parse E (canonicalDate y m d) = Some (MakeDate (MakeDay y (m - 1) d) 0)"
    unfolding Date_parse_def parseISO_canonical[OF assms] TimeClip_def
    using MakeDay_range[OF assms] by simp
  then show ?thesis
    by (simp add: normalize_date_eq isoDate_canonical[OF assms])
qed

lemma parse_date_only: "Date_parse E (js ''2024-12-15'') = Some 1734220800000"
  by (simp add: date_defs char_class_defs eval_nat_numeral)

lemma parse_example_instant: "Date_parse E (js ''2024-12-15T10:30:00.000Z'') = Some 1734258600000"
  by (simp add: date_defs char_class_defs eval_nat_numeral)

lemma parse_invalid: "Date_parse example_engine (js ''invalid-date'') = None"
  by (simp add: date_defs char_class_defs eval_nat_numeral example_engine_def)

lemma isoDate_example: "isoDate 1734258600000 = js ''2024-12-15''"
  by code_simp

lemma isoDate_example2: "isoDate 1734220800000 = js ''2024-12-15''"
  by code_simp

lemma normalize_date_examples:
  "normalize_date E (js ''2024-12-15T10:30:00.000Z'') = Inr (js ''2024-12-15'')"
  "normalize_date E (js ''2024-12-15'') = Inr (js ''2024-12-15'')"
  by (simp_all add: normalize_date_eq parse_date_only parse_example_instant isoDate_example
      isoDate_example2)

lemma time_regex_examples:
  "rx_test timeRegex (js ''9:30'')" "\<not> rx_test timeRegex (js ''24:00'')"
  "\<not> rx_test timeRegex (js ''25:00'')" "rx_test timeRegex (js ''09:00'')"
  by (simp_all add: timeRegex_def Chr_def Rng_def Opt_def js_def)

lemma parse_24_00:
  "Date_parse E (js ''2000-01-01T'' @ js ''24:00'') =
     TimeClip (946771200000 - LocalTZA E 946771200000 False)"
  by (simp add: date_defs char_class_defs eval_nat_numeral)

lemma time_of_day_midnight:
  "take 5 (pad 2 (HourFromTime 946771200000) @ js '':'' @ pad 2 (MinFromTime 946771200000) @ r) =
     js ''00:00''"
  by (simp add: pad2 HourFromTime_def MinFromTime_def digitChar_def js_def)

lemma sample_slug: "toLowerCase E (slugify E (js ''Test Event'')) = js ''test-event''"
  by (simp add: slug_defs char_class_defs)

lemma normalize_time_24_00:
  assumes "LocalTZA E (946771200000 - LocalTZA E 946771200000 False) True =
           LocalTZA E 946771200000 False"
      and "\<bar>LocalTZA E 946771200000 False\<bar> \<le> 86400000"
  shows "normalize_time E (js ''24:00'') = Inr (js ''00:00'')"
proof -
  let ?z = "LocalTZA E 946771200000 False"
  let ?t = "946771200000 - ?z"
  have p: "Date_parse E (js ''2000-01-01T'' @ js ''24:00'') = Some ?t"
    using assms(2) by (simp add: parse_24_00 TimeClip_def)
  have l: "?t + LocalTZA E ?t True = 946771200000" using assms(1) by simp
  have "take 5 (toTimeString E ?t) = js ''00:00''"
    unfolding toTimeString_def Let_def l append_assoc by (rule time_of_day_midnight)
  then show ?thesis
    by (simp add: normalize_time_def time_try_def p time_regex_examples)
qed


lemma normalize_time_match: "rx_test timeRegex s \<Longrightarrow> normalize_time E s = Inr s"
  by (simp add: normalize_time_def)

lemma normalize_time_reject:
  "\<not> rx_test timeRegex s \<Longrightarrow> Date_parse E (js ''2000-01-01T'' @ s) = None \<Longrightarrow>
   normalize_time E s = Inl (js ''Time must be in HH:MM format'')"
  by (simp add: normalize_time_def time_try_def)

lemma new_Event_simps [simp]:
  "isNew (new_Event e)" "content (new_Event e) = e"
  by (simp_all add: new_Event_def)

lemma new_Event_update: "(new_Event e)\<lparr>content := e'\<rparr> = new_Event e'"
  by (simp add: new_Event_def)

lemma validEventData_fields:
  "title validEventData = js ''Test Event''" "date validEventData = js ''2024-12-15''"
  "time validEventData = js ''09:00''" "agenda validEventData \<noteq> []" "tags validEventData \<noteq> []"
  by (simp_all add: validEventData_def)

text \<open>
  Claim C1. The claim asks that a time in strict \<open>H:MM\<close> syntax is stored zero-padded,
  \<open>"9:30"\<close> as \<open>"09:30"\<close>. The hook leaves a time that matches the pattern as it is: for
  the new event of the test suite with time \<open>"9:30"\<close> it calls \<open>next()\<close> and the time
  stays \<open>"9:30"\<close>.
\<close>

theorem time_single_digit_hour_kept:
  "rx_test timeRegex (js ''9:30'')
   \<and> normalize_time E (js ''9:30'') = Inr (js ''9:30'')
   \<and> js ''9:30'' \<noteq> js ''09:30''
   \<and> event_pre_save E (new_Event (validEventData\<lparr>time := js ''9:30''\<rparr>)) =
       (new_Event (validEventData\<lparr>slug := js ''test-event'', time := js ''9:30''\<rparr>), None)"
proof (intro conjI)
  show m: "rx_test timeRegex (js ''9:30'')" by (rule time_regex_examples)
  then show t: "normalize_time E (js ''9:30'') = Inr (js ''9:30'')" by (rule normalize_time_match)
  show "js ''9:30'' \<noteq> js ''09:30''" by (simp add: js_def)
  show "event_pre_save E (new_Event (validEventData\<lparr>time := js ''9:30''\<rparr>)) =
       (new_Event (validEventData\<lparr>slug := js ''test-event'', time := js ''9:30''\<rparr>), None)"
    by (simp add: event_pre_save_flat Let_def validEventData_fields sample_slug
        normalize_date_examples t array_guard_def new_Event_update)
       (simp add: validEventData_def)
qed

text \<open>
  Claim C10. \<open>"24:00"\<close> does not match the pattern, \<open>new Date("2000-01-01T24:00")\<close> is
  midnight of 2 January 2000 in local time, and the time stored is \<open>"00:00"\<close>; the save
  of the test suite's event with that time goes through. The two assumptions say that
  the local time zone has one offset around that midnight, of at most a day.
\<close>

theorem time_24_00_accepted:
  assumes "LocalTZA E (946771200000 - LocalTZA E 946771200000 False) True =
           LocalTZA E 946771200000 False"
      and "\<bar>LocalTZA E 946771200000 False\<bar> \<le> 86400000"
  shows "\<not> rx_test timeRegex (js ''24:00'')
   \<and> normalize_time E (js ''24:00'') = Inr (js ''00:00'')
   \<and> event_pre_save E (new_Event (validEventData\<lparr>time := js ''24:00''\<rparr>)) =
       (new_Event (validEventData\<lparr>slug := js ''test-event'', time := js ''00:00''\<rparr>), None)"
proof (intro conjI)
  show "\<not> rx_test timeRegex (js ''24:00'')" by (rule time_regex_examples)
  show t: "normalize_time E (js ''24:00'') = Inr (js ''00:00'')"
    using assms by (rule normalize_time_24_00)
  show "event_pre_save E (new_Event (validEventData\<lparr>time := js ''24:00''\<rparr>)) =
       (new_Event (validEventData\<lparr>slug := js ''test-event'', time := js ''00:00''\<rparr>), None)"
    by (simp add: event_pre_save_flat Let_def validEventData_fields sample_slug
        normalize_date_examples t array_guard_def new_Event_update)
       (simp add: validEventData_def)
qed

theorem time_24_00_accepted_witness:
  "normalize_time example_engine (js ''24:00'') = Inr (js ''00:00'')
   \<and> snd (event_pre_save example_engine (new_Event (validEventData\<lparr>time := js ''24:00''\<rparr>))) = None
   \<and> time (content (fst (event_pre_save example_engine
         (new_Event (validEventData\<lparr>time := js ''24:00''\<rparr>))))) = js ''00:00''"
proof -
  have 1: "LocalTZA example_engine (946771200000 - LocalTZA example_engine 946771200000 False) True =
           LocalTZA example_engine 946771200000 False"
    by (simp add: example_engine_def)
  have 2: "\<bar>LocalTZA example_engine 946771200000 False\<bar> \<le> 86400000"
    by (simp add: example_engine_def)
  from time_24_00_accepted[OF 1 2] show ?thesis by simp
qed

text \<open>
  Claim C3, as amended. When \<open>new Date(date)\<close> is invalid, the hook fails with the error
  \<open>Date must be in a valid format (YYYY-MM-DD or ISO string)\<close>. When it is the instant
  \<open>t\<close>, the date stored is the UTC calendar day of \<open>t\<close>: the year \<open>y\<close> with
  \<open>DayFromYear y \<le> Day t < DayFromYear (y + 1)\<close>, written with four digits when it lies
  between 0 and 9999, then the month and the day of the month with two digits each.
  \<open>"2024-12-15T10:30:00.000Z"\<close> is stored as \<open>"2024-12-15"\<close>, and every calendar date
  written \<open>YYYY-MM-DD\<close> is stored as it is.
\<close>

theorem date_normalisation:
  "(Date_parse E s = None \<longrightarrow>
      normalize_date E s = Inl (js ''Date must be in a valid format (YYYY-MM-DD or ISO string)''))
   \<and> (Date_parse E s = Some t \<longrightarrow>
      normalize_date E s =
        Inr (yearString (YearFromTime t) @ js ''-'' @ pad 2 (MonthFromTime t + 1) @ js ''-'' @
             pad 2 (DateFromTime t)))
   \<and> DayFromYear (YearFromTime t) \<le> Day t \<and> Day t < DayFromYear (YearFromTime t + 1)
   \<and> (0 \<le> YearFromTime t \<and> YearFromTime t \<le> 9999 \<longrightarrow> yearString (YearFromTime t) = pad 4 (YearFromTime t))
   \<and> normalize_date E (js ''2024-12-15T10:30:00.000Z'') = Inr (js ''2024-12-15'')
   \<and> (0 \<le> y \<and> y \<le> 9999 \<and> 1 \<le> m \<and> m \<le> 12 \<and> 1 \<le> dd \<and> dd \<le> DaysInMonth y m \<longrightarrow>
        normalize_date E (canonicalDate y m dd) = Inr (canonicalDate y m dd))
   \<and> ((isNew d \<or> isModified d ''date'') \<and> Date_parse E (date (content d)) = None \<longrightarrow>
        snd (event_pre_save E d) =
          Some (js ''Date must be in a valid format (YYYY-MM-DD or ISO string)''))
   \<and> ((isNew d \<or> isModified d ''date'') \<and> Date_parse E (date (content d)) = Some t \<longrightarrow>
        date (content (fst (event_pre_save E d))) = isoDate t)"
proof (intro conjI)
  show "Date_parse E s = None \<longrightarrow>
      normalize_date E s = Inl (js ''Date must be in a valid format (YYYY-MM-DD or ISO string)'')"
    by (simp add: normalize_date_eq)
  show "Date_parse E s = Some t \<longrightarrow>
      normalize_date E s =
        Inr (yearString (YearFromTime t) @ js ''-'' @ pad 2 (MonthFromTime t + 1) @ js ''-'' @
             pad 2 (DateFromTime t))"
    by (simp add: normalize_date_eq isoDate_def)
  show "DayFromYear (YearFromTime t) \<le> Day t" "Day t < DayFromYear (YearFromTime t + 1)"
    using YearFromDay_bounds[of "Day t"] by (simp_all add: YearFromTime_def)
  show "0 \<le> YearFromTime t \<and> YearFromTime t \<le> 9999 \<longrightarrow> yearString (YearFromTime t) = pad 4 (YearFromTime t)"
    by (simp add: yearString_def)
  show "normalize_date E (js ''2024-12-15T10:30:00.000Z'') = Inr (js ''2024-12-15'')"
    by (rule normalize_date_examples)
  show "0 \<le> y \<and> y \<le> 9999 \<and> 1 \<le> m \<and> m \<le> 12 \<and> 1 \<le> dd \<and> dd \<le> DaysInMonth y m \<longrightarrow>
        normalize_date E (canonicalDate y m dd) = Inr (canonicalDate y m dd)"
    using normalize_date_canonical[of y m dd E] by blast
  show "(isNew d \<or> isModified d ''date'') \<and> Date_parse E (date (content d)) = None \<longrightarrow>
        snd (event_pre_save E d) =
          Some (js ''Date must be in a valid format (YYYY-MM-DD or ISO string)'')"
    by (auto simp: event_pre_save_flat Let_def normalize_date_eq)
  show "(isNew d \<or> isModified d ''date'') \<and> Date_parse E (date (content d)) = Some t \<longrightarrow>
        date (content (fst (event_pre_save E d))) = isoDate t"
    by (auto simp: event_pre_save_flat Let_def normalize_date_eq split: sum.splits)
qed

theorem date_normalisation_witness:
  "normalize_date example_engine (js ''2024-12-15T10:30:00.000Z'') = Inr (js ''2024-12-15'')
   \<and> date (content (fst (event_pre_save example_engine
        (new_Event (validEventData\<lparr>date := js ''2024-12-15T10:30:00.000Z''\<rparr>))))) = js ''2024-12-15''"
  using date_normalisation[where E = example_engine and s = "js ''2024-12-15T10:30:00.000Z''"
      and t = 1734258600000
      and d = "new_Event (validEventData\<lparr>date := js ''2024-12-15T10:30:00.000Z''\<rparr>)"]
  by (simp add: parse_example_instant isoDate_example isoDate_example[unfolded isoDate_def])

text \<open>
  Claim C3 as stated names the error \<open>invalid date format\<close>. The string
  \<open>"invalid-date"\<close> is not a date, and the save fails with another message: the error
  thrown inside the \<open>try\<close> is replaced in the \<open>catch\<close>.
\<close>

theorem date_error_message_counterexample:
  "Date_parse example_engine (js ''invalid-date'') = None
   \<and> snd (event_pre_save example_engine (new_Event (validEventData\<lparr>date := js ''invalid-date''\<rparr>))) =
       Some (js ''Date must be in a valid format (YYYY-MM-DD or ISO string)'')
   \<and> snd (event_pre_save example_engine (new_Event (validEventData\<lparr>date := js ''invalid-date''\<rparr>))) \<noteq>
       Some (js ''invalid date format'')
   \<and> snd (event_pre_save example_engine (new_Event (validEventData\<lparr>date := js ''invalid-date''\<rparr>))) \<noteq>
       Some (js ''Invalid date format'')"
  by (simp add: event_pre_save_flat Let_def normalize_date_eq parse_invalid) (simp add: js_def)

text \<open>
  Claim C7. A save of a document that is not new and whose title is not modified leaves
  the slug as it is; when the title is new or modified the slug is derived from the title
  alone. The same holds for the date and the time, and a document that is not new and
  has no modified path comes out of the hook unchanged.
\<close>

theorem resave_keeps_derived_fields:
  "(\<not> isNew d \<and> \<not> isModified d ''title'' \<longrightarrow>
      slug (content (fst (event_pre_save E d))) = slug (content d))
   \<and> (isNew d \<or> isModified d ''title'' \<longrightarrow>
      slug (content (fst (event_pre_save E d))) = toLowerCase E (slugify E (title (content d))))
   \<and> ((\<forall>s. \<forall>c \<in> set (unicodeLower E s). \<not> isUpperAZ c) \<and> (isNew d \<or> isModified d ''title'') \<longrightarrow>
      slug (content (fst (event_pre_save E d))) = slugify E (title (content d)))
   \<and> (\<not> isNew d \<and> \<not> isModified d ''date'' \<longrightarrow>
      date (content (fst (event_pre_save E d))) = date (content d))
   \<and> (\<not> isNew d \<and> \<not> isModified d ''time'' \<longrightarrow>
      time (content (fst (event_pre_save E d))) = time (content d))
   \<and> (\<not> isNew d \<and> modifiedPaths d = {} \<longrightarrow> fst (event_pre_save E d) = d)"
proof (intro conjI)
  show "\<not> isNew d \<and> \<not> isModified d ''title'' \<longrightarrow>
      slug (content (fst (event_pre_save E d))) = slug (content d)"
    by (simp add: event_pre_save_slug)
  show "isNew d \<or> isModified d ''title'' \<longrightarrow>
      slug (content (fst (event_pre_save E d))) = toLowerCase E (slugify E (title (content d)))"
    by (simp add: event_pre_save_slug)
  show "(\<forall>s. \<forall>c \<in> set (unicodeLower E s). \<not> isUpperAZ c) \<and> (isNew d \<or> isModified d ''title'') \<longrightarrow>
      slug (content (fst (event_pre_save E d))) = slugify E (title (content d))"
    using slugify_ascii_lower[of E "title (content d)"] by (simp add: event_pre_save_slug)
  show "\<not> isNew d \<and> \<not> isModified d ''date'' \<longrightarrow>
      date (content (fst (event_pre_save E d))) = date (content d)"
    by (simp add: event_pre_save_flat Let_def split: sum.splits)
  show "\<not> isNew d \<and> \<not> isModified d ''time'' \<longrightarrow>
      time (content (fst (event_pre_save E d))) = time (content d)"
    by (simp add: event_pre_save_flat Let_def split: sum.splits)
  show "\<not> isNew d \<and> modifiedPaths d = {} \<longrightarrow> fst (event_pre_save E d) = d"
    by (simp add: event_pre_save_flat Let_def isModified_def)
qed

theorem resave_keeps_derived_fields_witness:
  "fst (event_pre_save example_engine
         (saved_Event (validEventData\<lparr>slug := js ''test-event''\<rparr>))) =
     saved_Event (validEventData\<lparr>slug := js ''test-event''\<rparr>)
   \<and> slug (content (fst (event_pre_save example_engine
         ((saved_Event (validEventData\<lparr>slug := js ''test-event'', title := js ''Updated Title''\<rparr>))
            \<lparr>modifiedPaths := {''title''}\<rparr>)))) = js ''updated-title''"
proof -
  let ?d0 = "saved_Event (validEventData\<lparr>slug := js ''test-event''\<rparr>)"
  let ?d1 = "(saved_Event (validEventData\<lparr>slug := js ''test-event'',
          title := js ''Updated Title''\<rparr>))\<lparr>modifiedPaths := {''title''}\<rparr>"
  have a: "\<not> isNew ?d0 \<and> modifiedPaths ?d0 = {}"
    by (simp add: saved_Event_def)
  have b: "isNew ?d1 \<or> isModified ?d1 ''title''"
    by (simp add: isModified_def)
  have t: "title (content ?d1) = js ''Updated Title''"
    by (simp add: saved_Event_def)
  have u: "slugify example_engine (js ''Updated Title'') = js ''updated-title''"
    by (simp add: slug_defs char_class_defs)
  from resave_keeps_derived_fields[of ?d0 example_engine] a
  have 1: "fst (event_pre_save example_engine ?d0) = ?d0" by blast
  from resave_keeps_derived_fields[of ?d1 example_engine] b example_engine_lower
  have "slug (content (fst (event_pre_save example_engine ?d1))) =
          slugify example_engine (title (content ?d1))" by blast
  then have 2: "slug (content (fst (event_pre_save example_engine ?d1))) = js ''updated-title''"
    by (simp only: t u)
  from 1 2 show ?thesis by (rule conjI)
qed

section \<open>The matcher decides the language\<close>

lemma nullable_iff: "nullable r \<longleftrightarrow> [] \<in> lang r"
  by (induction r) (auto intro: star.intros)

lemma star_Cons_split:
  "c # w \<in> star A \<Longrightarrow> \<exists>u v. w = u @ v \<and> c # u \<in> A \<and> v \<in> star A"
proof (induction "c # w" arbitrary: w rule: star.induct)
  case (star_step u v)
  show ?case
  proof (cases u)
    case Nil
    with star_step show ?thesis by simp
  next
    case (Cons a u')
    with star_step show ?thesis by auto
  qed
qed

lemma lang_SeqI: "u \<in> lang r \<Longrightarrow> v \<in> lang s \<Longrightarrow> u @ v \<in> lang (Seq r s)"
  by auto

lemma lang_deriv: "w \<in> lang (deriv c r) \<longleftrightarrow> c # w \<in> lang r"
proof (induction r arbitrary: w)
  case (Seq r s)
  show ?case
  proof
    assume "w \<in> lang (deriv c (Seq r s))"
    then consider (l) u v where "w = u @ v" "u \<in> lang (deriv c r)" "v \<in> lang s"
      | (r) "nullable r" "w \<in> lang (deriv c s)"
      by (auto split: if_splits)
    then show "c # w \<in> lang (Seq r s)"
    proof cases
      case l
      then have "c # u \<in> lang r" using Seq by simp
      from lang_SeqI[OF this l(3)] l(1) show ?thesis by simp
    next
      case r
      then have "[] \<in> lang r" "c # w \<in> lang s" using Seq by (simp_all add: nullable_iff)
      from lang_SeqI[OF this] show ?thesis by simp
    qed
  next
    assume "c # w \<in> lang (Seq r s)"
    then obtain u v where uv: "c # w = u @ v" "u \<in> lang r" "v \<in> lang s" by auto
    show "w \<in> lang (deriv c (Seq r s))"
    proof (cases u)
      case Nil
      with uv Seq show ?thesis by (auto simp: nullable_iff)
    next
      case (Cons a u')
      with uv Seq show ?thesis by (auto simp: nullable_iff)
    qed
  qed
next
  case (Star r)
  show ?case
  proof
    assume "w \<in> lang (deriv c (Star r))"
    then obtain u v where "w = u @ v" "c # u \<in> lang r" "v \<in> star (lang r)"
      using Star by auto
    then show "c # w \<in> lang (Star r)" using star_step[of "c # u" "lang r" v] by simp
  next
    assume "c # w \<in> lang (Star r)"
    then have "c # w \<in> star (lang r)" by simp
    from star_Cons_split[OF this] show "w \<in> lang (deriv c (Star r))" using Star by auto
  qed
qed auto

lemma rx_test_lang: "rx_test r s \<longleftrightarrow> s \<in> lang r"
  by (induction s arbitrary: r) (simp_all add: nullable_iff lang_deriv)

text \<open>The language of a character class repeated.\<close>

lemma star_Cls: "w \<in> star {[c] | c. p c} \<longleftrightarrow> (\<forall>c \<in> set w. p c)"
proof
  assume "w \<in> star {[c] | c. p c}"
  then show "\<forall>c \<in> set w. p c" by (induction rule: star.induct) auto
next
  assume "\<forall>c \<in> set w. p c"
  then show "w \<in> star {[c] | c. p c}"
  proof (induction w)
    case Nil
    show ?case by (rule star_Nil)
  next
    case (Cons a w)
    then have "[a] \<in> {[c] | c. p c}" "w \<in> star {[c] | c. p c}" by simp_all
    from star_step[OF this] show ?case by simp
  qed
qed

lemma lang_Plus_Cls: "w \<in> lang (Plus (Cls p)) \<longleftrightarrow> w \<noteq> [] \<and> (\<forall>c \<in> set w. p c)"
proof -
  have "w \<in> lang (Plus (Cls p)) \<longleftrightarrow> (\<exists>c v. w = c # v \<and> p c \<and> v \<in> star {[c] | c. p c})"
  proof
    assume "w \<in> lang (Plus (Cls p))"
    then show "\<exists>c v. w = c # v \<and> p c \<and> v \<in> star {[c] | c. p c}"
      by (auto simp: Plus_def)
  next
    assume "\<exists>c v. w = c # v \<and> p c \<and> v \<in> star {[c] | c. p c}"
    then obtain c v where w: "w = [c] @ v" "p c" "v \<in> star {[c] | c. p c}" by auto
    then have "[c] \<in> lang (Cls p)" "v \<in> lang (Star (Cls p))" by simp_all
    from lang_SeqI[OF this] w(1) show "w \<in> lang (Plus (Cls p))" by (simp add: Plus_def)
  qed
  also have "\<dots> \<longleftrightarrow> w \<noteq> [] \<and> (\<forall>c \<in> set w. p c)"
    unfolding star_Cls by (cases w) auto
  finally show ?thesis .
qed

lemma lang_Chr: "w \<in> lang (Chr c) \<longleftrightarrow> w = [of_char c]"
  by (auto simp: Chr_def)

lemma email_regex_iff:
  "rx_test emailRegex e \<longleftrightarrow>
     (\<exists>l d1 d2. e = l @ [64] @ d1 @ [46] @ d2 \<and> l \<noteq> [] \<and> d1 \<noteq> [] \<and> d2 \<noteq> [] \<and>
        (\<forall>c \<in> set l. notSpaceAt c) \<and> (\<forall>c \<in> set d1. notSpaceAt c) \<and> (\<forall>c \<in> set d2. notSpaceAt c))"
proof -
  have "e \<in> lang emailRegex \<longleftrightarrow>
     (\<exists>l a d1 b d2. e = l @ a @ d1 @ b @ d2 \<and> l \<in> lang (Plus (Cls notSpaceAt)) \<and>
        a \<in> lang (Chr CHR ''@'') \<and> d1 \<in> lang (Plus (Cls notSpaceAt)) \<and>
        b \<in> lang (Chr CHR ''.'') \<and> d2 \<in> lang (Plus (Cls notSpaceAt)))"
    unfolding emailRegex_def lang.simps by blast
  then show ?thesis
    unfolding rx_test_lang lang_Plus_Cls lang_Chr by auto
qed


lemma notSpaceAt_iff: "notSpaceAt c \<longleftrightarrow> \<not> isSpace c \<and> c \<noteq> 64"
  by (simp add: notSpaceAt_def)

lemma not_space_at_dot: "\<not> isSpace 64" "\<not> isSpace 46"
  by (simp_all add: isSpace_def)

text \<open>
  The pattern in explicit terms: no white space, one \<open>@\<close>, something before it, and
  after it a dot that is neither the first nor the last code unit of that part.
\<close>

lemma email_regex_explicit:
  "rx_test emailRegex e \<longleftrightarrow>
     (\<forall>c \<in> set e. \<not> isSpace c) \<and> count_list e 64 = 1 \<and>
     takeWhile (\<lambda>c. c \<noteq> 64) e \<noteq> [] \<and>
     (\<exists>i. 0 < i \<and> Suc i < length (tl (dropWhile (\<lambda>c. c \<noteq> 64) e)) \<and>
          tl (dropWhile (\<lambda>c. c \<noteq> 64) e) ! i = 46)"
  (is "?L \<longleftrightarrow> ?R")
proof
  assume ?L
  then obtain l d1 d2 where e: "e = l @ [64] @ d1 @ [46] @ d2"
    and ne: "l \<noteq> []" "d1 \<noteq> []" "d2 \<noteq> []"
    and ok: "\<forall>c \<in> set l. notSpaceAt c" "\<forall>c \<in> set d1. notSpaceAt c" "\<forall>c \<in> set d2. notSpaceAt c"
    unfolding email_regex_iff by blast
  have l64: "\<forall>c \<in> set l. c \<noteq> 64" using ok(1) by (simp add: notSpaceAt_iff)
  have tw: "takeWhile (\<lambda>c. c \<noteq> 64) e = l"
    unfolding e using l64 by (simp add: takeWhile_tail)
  have dw: "dropWhile (\<lambda>c. c \<noteq> 64) e = 64 # d1 @ 46 # d2"
    unfolding e using l64 by (simp add: dropWhile_append3)
  have c0: "count_list l 64 = 0" "count_list d1 64 = 0" "count_list d2 64 = 0"
    using ok by (auto simp: count_list_0_iff notSpaceAt_iff)
  have cnt: "count_list e 64 = 1" unfolding e by (simp add: c0)
  have sp: "\<forall>c \<in> set e. \<not> isSpace c"
    unfolding e using ok not_space_at_dot by (auto simp: notSpaceAt_iff)
  have "0 < length d1 \<and> Suc (length d1) < length (d1 @ 46 # d2) \<and> (d1 @ 46 # d2) ! length d1 = 46"
    using ne by simp
  then have "\<exists>i. 0 < i \<and> Suc i < length (tl (dropWhile (\<lambda>c. c \<noteq> 64) e)) \<and>
          tl (dropWhile (\<lambda>c. c \<noteq> 64) e) ! i = 46"
    unfolding dw list.sel by blast
  with sp cnt tw ne(1) show ?R by simp
next
  assume r: ?R
  let ?l = "takeWhile (\<lambda>c. c \<noteq> 64) e"
  let ?r = "dropWhile (\<lambda>c. c \<noteq> 64) e"
  from r obtain i where i: "0 < i" "Suc i < length (tl ?r)" "tl ?r ! i = 46" by blast
  from r have sp: "\<forall>c \<in> set e. \<not> isSpace c" and cnt: "count_list e 64 = 1" and lne: "?l \<noteq> []"
    by simp_all
  have rne: "?r \<noteq> []"
  proof
    assume "?r = []"
    then have "length (tl ?r) = 0" by (simp only: list.sel list.size)
    with i(2) show False by simp
  qed
  then have hd: "hd ?r = 64" using hd_dropWhile[of "\<lambda>c. c \<noteq> 64" e] by simp
  define dom where "dom = tl ?r"
  have r_eq: "?r = 64 # dom" using rne hd unfolding dom_def by (cases ?r) auto
  have e: "e = ?l @ 64 # dom" using takeWhile_dropWhile_id[of "\<lambda>c. c \<noteq> 64" e] r_eq by simp
  have l64: "count_list ?l 64 = 0"
    by (simp add: count_list_0_iff) (metis (mono_tags, lifting) set_takeWhileD)
  have "count_list e 64 = count_list ?l 64 + 1 + count_list dom 64"
    by (subst e) simp
  with cnt l64 have d64: "64 \<notin> set dom" by (simp add: count_list_0_iff)
  define d1 where "d1 = take i dom"
  define d2 where "d2 = drop (Suc i) dom"
  have il: "i < length dom" using i(2) unfolding dom_def by simp
  have dom: "dom = d1 @ [46] @ d2"
    using id_take_nth_drop[OF il] i(3) unfolding d1_def d2_def dom_def by simp
  have i2: "Suc i < length dom" using i(2) unfolding dom_def .
  have "length d1 = i" "length d2 = length dom - Suc i"
    unfolding d1_def d2_def using il by simp_all
  with i(1) i2 have "0 < length d1" "0 < length d2" by simp_all
  then have ne: "d1 \<noteq> []" "d2 \<noteq> []" by simp_all
  have se: "set ?l \<subseteq> set e" "set dom \<subseteq> set e"
    using e by (metis set_takeWhileD subsetI, metis Un_iff set_append set_subset_Cons subsetD subsetI)
  have okl: "\<forall>c \<in> set ?l. notSpaceAt c"
    using sp se(1) by (auto simp: notSpaceAt_iff dest: set_takeWhileD)
  have okd: "\<forall>c \<in> set dom. notSpaceAt c"
    using sp se(2) d64 by (auto simp: notSpaceAt_iff)
  have ok1: "\<forall>c \<in> set d1. notSpaceAt c" and ok2: "\<forall>c \<in> set d2. notSpaceAt c"
    using okd unfolding dom by simp_all
  have "e = ?l @ [64] @ d1 @ [46] @ d2" using e dom by simp
  with lne ne okl ok1 ok2 show ?L unfolding email_regex_iff by blast
qed

section \<open>Claims about the Booking\<close>

lemma email_validate_None_iff:
  "email_validate (Some e) = None \<longleftrightarrow> e \<noteq> [] \<and> rx_test emailRegex e \<and> length e \<le> 254"
  by (auto simp: email_validate_def)

lemma eventId_validate_None_iff: "eventId_validate v = None \<longleftrightarrow> v \<noteq> None"
  by (simp add: eventId_validate_def split: option.splits)

lemma booking_validate_paths:
  "booking_validate b ''eventId'' = eventId_validate (eventId b)"
  "booking_validate b ''email'' = email_validate (email b)"
  by (simp_all add: booking_validate_def)

lemma booking_validate_email_only:
  "eventId b = Some i \<Longrightarrow> email_validate (email b) = Some m \<Longrightarrow>
   booking_validate b = [''email'' \<mapsto> m]"
  by (rule ext) (simp add: booking_validate_def eventId_validate_def)

lemma booking_validate_eventId_only:
  "eventId b = None \<Longrightarrow> email_validate (email b) = None \<Longrightarrow>
   booking_validate b = [''eventId'' \<mapsto> js ''Event ID is required'']"
  by (rule ext) (simp add: booking_validate_def eventId_validate_def)

lemma booking_validate_empty_iff:
  "booking_validate b = Map.empty \<longleftrightarrow>
   eventId b \<noteq> None \<and> email_validate (email b) = None"
proof
  assume e: "booking_validate b = Map.empty"
  from booking_validate_paths[of b] have
    "eventId_validate (eventId b) = None" "email_validate (email b) = None"
    unfolding e by simp_all
  then show "eventId b \<noteq> None \<and> email_validate (email b) = None"
    by (simp add: eventId_validate_None_iff)
next
  assume "eventId b \<noteq> None \<and> email_validate (email b) = None"
  then show "booking_validate b = Map.empty"
    by (intro ext) (auto simp: booking_validate_def eventId_validate_def)
qed

lemma booking_save_invalid:
  "eventId (content d) = None \<or> email_validate (email (content d)) \<noteq> None \<Longrightarrow>
   booking_save M d = (Inl (ValidationError (booking_validate (content d))), [])"
  by (auto simp: booking_save_def eventId_validate_def)

lemma booking_save_valid:
  "eventId (content d) = Some i \<Longrightarrow> email_validate (email (content d)) = None \<Longrightarrow>
   booking_save M d =
     (case booking_pre_save M d of
        (Some m, lookups) \<Rightarrow> (Inl (HookError m), lookups)
      | (None, lookups) \<Rightarrow> (Inr (content d), lookups))"
  by (simp add: booking_save_def eventId_validate_def)

text \<open>
  Claim C4, as amended. An e-mail address passes the validators exactly when it meets
  the conditions of the specification and, in addition, the part after the \<open>@\<close> has a dot
  that is neither its first nor its last code unit. An address that fails gets one of the
  three messages of the \<open>email\<close> path, and the save ends with the validation error that
  has this message for \<open>email\<close>, and for \<open>email\<close> only when \<open>eventId\<close> is there: nothing is
  looked up and nothing goes to the storage.
\<close>

theorem email_validation:
  "(email_validate (Some e) = None \<longleftrightarrow>
      spec_email_ok e \<and>
      (\<exists>i. 0 < i \<and> Suc i < length (tl (dropWhile (\<lambda>c. c \<noteq> of_char CHR ''@'') e)) \<and>
           tl (dropWhile (\<lambda>c. c \<noteq> of_char CHR ''@'') e) ! i = of_char CHR ''.''))
   \<and> (email_validate v = Some m \<longrightarrow>
        (m = js ''Email is required'' \<or> m = js ''Please provide a valid email address'' \<or>
         m = js ''Email cannot exceed 254 characters'') \<and>
        (email (content d) = v \<longrightarrow>
           booking_save M d = (Inl (ValidationError (booking_validate (content d))), []) \<and>
           booking_validate (content d) ''email'' = Some m \<and>
           (eventId (content d) \<noteq> None \<longrightarrow> booking_validate (content d) = [''email'' \<mapsto> m])))"
proof (intro conjI)
  show "email_validate (Some e) = None \<longleftrightarrow>
      spec_email_ok e \<and>
      (\<exists>i. 0 < i \<and> Suc i < length (tl (dropWhile (\<lambda>c. c \<noteq> of_char CHR ''@'') e)) \<and>
           tl (dropWhile (\<lambda>c. c \<noteq> of_char CHR ''@'') e) ! i = of_char CHR ''.'')"
  proof -
    let ?dom = "tl (dropWhile (\<lambda>c. c \<noteq> 64) e)"
    have dom: "?dom \<noteq> []" if "Suc i < length ?dom" for i
    proof
      assume "?dom = []"
      then have "length ?dom = 0" by (simp only: list.size)
      with that show False by simp
    qed
    have c: "of_char CHR ''@'' = (64::nat)" "of_char CHR ''.'' = (46::nat)" by simp_all
    show ?thesis
      unfolding email_validate_None_iff email_regex_explicit spec_email_ok_def c
      using dom by blast
  qed
  show "email_validate v = Some m \<longrightarrow>
        (m = js ''Email is required'' \<or> m = js ''Please provide a valid email address'' \<or>
         m = js ''Email cannot exceed 254 characters'') \<and>
        (email (content d) = v \<longrightarrow>
           booking_save M d = (Inl (ValidationError (booking_validate (content d))), []) \<and>
           booking_validate (content d) ''email'' = Some m \<and>
           (eventId (content d) \<noteq> None \<longrightarrow> booking_validate (content d) = [''email'' \<mapsto> m]))"
  proof (intro impI conjI)
    assume v: "email_validate v = Some m"
    then show "m = js ''Email is required'' \<or> m = js ''Please provide a valid email address'' \<or>
         m = js ''Email cannot exceed 254 characters''"
      by (auto simp: email_validate_def split: option.splits if_splits)
    assume e: "email (content d) = v"
    from v e have ne: "email_validate (email (content d)) \<noteq> None" by simp
    then show "booking_save M d = (Inl (ValidationError (booking_validate (content d))), [])"
      by (simp add: booking_save_invalid)
    from v e show "booking_validate (content d) ''email'' = Some m"
      by (simp add: booking_validate_paths)
    assume "eventId (content d) \<noteq> None"
    then obtain i where "eventId (content d) = Some i" by auto
    moreover from v e have "email_validate (email (content d)) = Some m" by simp
    ultimately show "booking_validate (content d) = [''email'' \<mapsto> m]"
      by (rule booking_validate_email_only)
  qed
qed

lemma email_example_rejected: "\<not> rx_test emailRegex (js ''user@domain'')"
  by (simp add: emailRegex_def Chr_def Plus_def notSpaceAt_def isSpace_def js_def)

lemma email_example_setters: "email_setters E (js ''user@domain'') = js ''user@domain''"
  by (simp add: email_setters_def toLowerCase_def trim_def char_class_defs)

lemma email_example_spec: "spec_email_ok (js ''user@domain'')"
  by (simp add: spec_email_ok_def js_def isSpace_def)

text \<open>
  Claim C4 as stated leaves the dot out. \<open>"user@domain"\<close>, which the test suite lists
  among the invalid addresses, meets every condition of the specification and fails the
  pattern.
\<close>

theorem email_domain_dot_counterexample:
  "\<not> (email_validate (Some (email_setters example_engine (js ''user@domain''))) = None \<longleftrightarrow>
      spec_email_ok (email_setters example_engine (js ''user@domain'')))"
  by (simp add: email_example_setters email_example_spec email_validate_None_iff
      email_example_rejected)

theorem email_validation_witness:
  "email_validate (Some (js ''a@b.c'')) = None
   \<and> booking_save (registered (\<lambda>i. Found)) (sample_booking (js ''user@domain'')) =
       (Inl (ValidationError [''email'' \<mapsto> js ''Please provide a valid email address'']), [])"
proof -
  let ?m = "js ''Please provide a valid email address''"
  let ?d = "sample_booking (js ''user@domain'')"
  have "js ''user@domain'' \<noteq> []" by (simp add: js_def)
  then have v: "email_validate (Some (js ''user@domain'')) = Some ?m"
    unfolding email_validate_def by (simp add: email_example_rejected)
  have s: "spec_email_ok (js ''a@b.c'')"
    by (simp add: spec_email_ok_def js_def isSpace_def)
  have i: "\<exists>i. 0 < i \<and> Suc i < length (tl (dropWhile (\<lambda>c. c \<noteq> of_char CHR ''@'') (js ''a@b.c''))) \<and>
      tl (dropWhile (\<lambda>c. c \<noteq> of_char CHR ''@'') (js ''a@b.c'')) ! i = of_char CHR ''.''"
    by (rule exI[of _ 1]) (simp add: js_def)
  have e: "email (content ?d) = Some (js ''user@domain'')"
    by (simp add: sample_booking_def)
  have n: "eventId (content ?d) \<noteq> None"
    by (simp add: sample_booking_def)
  note t = email_validation[of "js ''a@b.c''" "Some (js ''user@domain'')" ?m ?d
      "registered (\<lambda>i. Found)"]
  have 1: "email_validate (Some (js ''a@b.c'')) = None"
    by (rule t[THEN conjunct1, THEN iffD2]) (rule conjI[OF s i])
  note u = t[THEN conjunct2, THEN mp, OF v, THEN conjunct2, THEN mp, OF e]
  have 2: "booking_save (registered (\<lambda>i. Found)) ?d =
      (Inl (ValidationError (booking_validate (content ?d))), [])"
    by (rule u[THEN conjunct1])
  have 3: "booking_validate (content ?d) = [''email'' \<mapsto> ?m]"
    by (rule u[THEN conjunct2, THEN conjunct2, THEN mp, OF n])
  from 2 have "booking_save (registered (\<lambda>i. Found)) ?d = (Inl (ValidationError [''email'' \<mapsto> ?m]), [])"
    unfolding 3 .
  with 1 show ?thesis by (rule conjI)
qed

text \<open>What the hook does, by the case it is in.\<close>

lemma booking_pre_save_unchanged:
  "\<not> (isNew d \<or> isModified d ''eventId'') \<Longrightarrow> booking_pre_save M d = (None, [])"
  by (simp add: booking_pre_save_def)

lemma booking_pre_save_lookup:
  "isNew d \<or> isModified d ''eventId'' \<Longrightarrow> resolve_Event M = Loaded \<Longrightarrow>
   booking_pre_save M d =
     (case Event_exists M (eventId (content d)) of
        Found \<Rightarrow> None
      | NotFound \<Rightarrow>
          Some (js ''Event with ID '' @ idString (eventId (content d)) @ js '' does not exist'')
      | ThrowsError m \<Rightarrow> Some (js ''Failed to validate event reference: '' @ m)
      | ThrowsOther \<Rightarrow> Some (js ''Failed to validate event reference''),
      [eventId (content d)])"
  by (simp add: booking_pre_save_def split: exists_outcome.splits)

lemma booking_pre_save_import_fails:
  "isNew d \<or> isModified d ''eventId'' \<Longrightarrow>
   (resolve_Event M = ImportThrowsError m \<longrightarrow>
      booking_pre_save M d = (Some (js ''Failed to validate event reference: '' @ m), [])) \<and>
   (resolve_Event M = ImportThrowsOther \<longrightarrow>
      booking_pre_save M d = (Some (js ''Failed to validate event reference''), []))"
  by (simp add: booking_pre_save_def)

text \<open>
  Claim C5, as amended. A save whose document fails validation (no \<open>eventId\<close>, or an
  e-mail address that fails) ends with the validation error and looks nothing up. A save
  whose document passes: when \<open>eventId\<close> is new or modified and the Event model is there,
  the event is looked up exactly once; a missing event gives an error that names the
  identity, a thrown \<open>Error\<close> the wrapped error with its message, any other thrown value
  the generic one, and a found event lets the document through. When the import of the
  Event model throws, nothing is looked up and the save fails with the wrapped error of
  the same two forms. When \<open>eventId\<close> is neither new nor modified nothing is looked up and
  the document goes through.
\<close>

theorem booking_reference_check:
  "(eventId (content d) = Some i \<and> email_validate (email (content d)) = None \<longrightarrow>
      (isNew d \<or> isModified d ''eventId'' \<longrightarrow>
         (resolve_Event M = Loaded \<longrightarrow>
            snd (booking_save M d) = [Some i]
            \<and> (Event_exists M (Some i) = Found \<longrightarrow> fst (booking_save M d) = Inr (content d))
            \<and> (Event_exists M (Some i) = NotFound \<longrightarrow>
                 fst (booking_save M d) =
                   Inl (HookError (js ''Event with ID '' @ i @ js '' does not exist'')))
            \<and> (Event_exists M (Some i) = ThrowsError m \<longrightarrow>
                 fst (booking_save M d) =
                   Inl (HookError (js ''Failed to validate event reference: '' @ m)))
            \<and> (Event_exists M (Some i) = ThrowsOther \<longrightarrow>
                 fst (booking_save M d) =
                   Inl (HookError (js ''Failed to validate event reference''))))
         \<and> (resolve_Event M = ImportThrowsError m \<longrightarrow>
              booking_save M d =
                (Inl (HookError (js ''Failed to validate event reference: '' @ m)), []))
         \<and> (resolve_Event M = ImportThrowsOther \<longrightarrow>
              booking_save M d =
                (Inl (HookError (js ''Failed to validate event reference'')), [])))
      \<and> (\<not> (isNew d \<or> isModified d ''eventId'') \<longrightarrow>
           booking_save M d = (Inr (content d), [])))
   \<and> (eventId (content d) = None \<or> email_validate (email (content d)) \<noteq> None \<longrightarrow>
        booking_save M d = (Inl (ValidationError (booking_validate (content d))), [])
        \<and> booking_validate (content d) \<noteq> Map.empty)"
proof (intro conjI impI)
  assume inv: "eventId (content d) = None \<or> email_validate (email (content d)) \<noteq> None"
  then show "booking_save M d = (Inl (ValidationError (booking_validate (content d))), [])"
    by (rule booking_save_invalid)
  from inv show "booking_validate (content d) \<noteq> Map.empty"
    unfolding booking_validate_empty_iff by auto
next
  assume ok: "eventId (content d) = Some i \<and> email_validate (email (content d)) = None"
  then have s: "booking_save M d =
     (case booking_pre_save M d of
        (Some m, lookups) \<Rightarrow> (Inl (HookError m), lookups)
      | (None, lookups) \<Rightarrow> (Inr (content d), lookups))"
    by (simp add: booking_save_valid)
  from ok have i: "eventId (content d) = Some i" by simp
  {
    assume "\<not> (isNew d \<or> isModified d ''eventId'')"
    then show "booking_save M d = (Inr (content d), [])"
      unfolding s by (simp add: booking_pre_save_unchanged)
  }
  assume c: "isNew d \<or> isModified d ''eventId''"
  {
    assume "resolve_Event M = ImportThrowsError m"
    with booking_pre_save_import_fails[OF c, of M m]
    show "booking_save M d =
        (Inl (HookError (js ''Failed to validate event reference: '' @ m)), [])"
      unfolding s by simp
  }
  {
    assume "resolve_Event M = ImportThrowsOther"
    with booking_pre_save_import_fails[OF c, of M m]
    show "booking_save M d = (Inl (HookError (js ''Failed to validate event reference'')), [])"
      unfolding s by simp
  }
  assume l: "resolve_Event M = Loaded"
  note h = booking_pre_save_lookup[OF c l, unfolded i]
  show "snd (booking_save M d) = [Some i]"
    unfolding s h by (simp split: exists_outcome.splits)
  {
    assume "Event_exists M (Some i) = Found"
    then show "fst (booking_save M d) = Inr (content d)"
      unfolding s h by simp
  }
  {
    assume "Event_exists M (Some i) = NotFound"
    then show "fst (booking_save M d) =
        Inl (HookError (js ''Event with ID '' @ i @ js '' does not exist''))"
      unfolding s h by (simp add: idString_def)
  }
  {
    assume "Event_exists M (Some i) = ThrowsError m"
    then show "fst (booking_save M d) =
        Inl (HookError (js ''Failed to validate event reference: '' @ m))"
      unfolding s h by simp
  }
  {
    assume "Event_exists M (Some i) = ThrowsOther"
    then show "fst (booking_save M d) =
        Inl (HookError (js ''Failed to validate event reference''))"
      unfolding s h by simp
  }
qed

lemma sample_booking_fields:
  "eventId (content (sample_booking e)) = Some (js ''507f1f77bcf86cd799439011'')"
  "email (content (sample_booking e)) = Some e"
  "isNew (sample_booking e)"
  by (simp_all add: sample_booking_def)

lemma email_example_accepted: "email_validate (Some (js ''test@example.com'')) = None"
  unfolding email_validate_None_iff
  by (simp add: emailRegex_def Chr_def Plus_def notSpaceAt_def isSpace_def js_def)

lemma email_example_no_at: "email_validate (Some (js ''notanemail'')) =
    Some (js ''Please provide a valid email address'')"
proof -
  have "\<not> rx_test emailRegex (js ''notanemail'')"
    by (simp add: emailRegex_def Chr_def Plus_def notSpaceAt_def isSpace_def js_def)
  moreover have "js ''notanemail'' \<noteq> []" by (simp add: js_def)
  ultimately show ?thesis by (simp add: email_validate_def)
qed

theorem booking_reference_check_witness:
  "booking_save (registered (\<lambda>i. NotFound)) (sample_booking (js ''test@example.com'')) =
     (Inl (HookError (js ''Event with ID 507f1f77bcf86cd799439011 does not exist'')),
      [Some (js ''507f1f77bcf86cd799439011'')])
   \<and> booking_save (registered (\<lambda>i. ThrowsError (js ''connection lost'')))
        ((sample_booking (js ''test@example.com''))\<lparr>isNew := False, modifiedPaths := {''email''}\<rparr>) =
     (Inr \<lparr>eventId = Some (js ''507f1f77bcf86cd799439011''),
           email = Some (js ''test@example.com'')\<rparr>, [])
   \<and> booking_save
        \<lparr>models_Event = False, import_event_model = ImportThrowsError (js ''Cannot find module''),
         Event_exists = (\<lambda>i. Found)\<rparr>
        (sample_booking (js ''test@example.com'')) =
     (Inl (HookError (js ''Failed to validate event reference: Cannot find module'')), [])
   \<and> booking_save (registered (\<lambda>i. Found))
        \<lparr>content = \<lparr>eventId = None, email = Some (js ''test@example.com'')\<rparr>,
         isNew = True, modifiedPaths = {''email''}\<rparr> =
     (Inl (ValidationError [''eventId'' \<mapsto> js ''Event ID is required'']), [])"
proof -
  let ?i = "js ''507f1f77bcf86cd799439011''"
  let ?d = "sample_booking (js ''test@example.com'')"
  let ?d' = "?d\<lparr>isNew := False, modifiedPaths := {''email''}\<rparr>"
  let ?n = "\<lparr>content = \<lparr>eventId = None, email = Some (js ''test@example.com'')\<rparr>,
         isNew = True, modifiedPaths = {''email''}\<rparr>"
  let ?M = "\<lparr>models_Event = False, import_event_model = ImportThrowsError (js ''Cannot find module''),
         Event_exists = (\<lambda>i. Found)\<rparr>"
  have ok: "eventId (content ?d) = Some ?i \<and> email_validate (email (content ?d)) = None"
    by (simp add: sample_booking_fields email_example_accepted)
  have ok': "eventId (content ?d') = Some ?i \<and> email_validate (email (content ?d')) = None"
    by (simp add: sample_booking_fields email_example_accepted)
  have a: "isNew ?d \<or> isModified ?d ''eventId''" by (simp add: sample_booking_fields)
  have b: "\<not> (isNew ?d' \<or> isModified ?d' ''eventId'')" by (simp add: isModified_def)
  have r: "resolve_Event (registered ex) = Loaded" for ex
    by (simp add: resolve_Event_def registered_def)
  have x: "Event_exists (registered (\<lambda>i. NotFound)) (Some ?i) = NotFound"
    by (simp add: registered_def)
  note t1 = booking_reference_check[of ?d ?i "registered (\<lambda>i. NotFound)", THEN conjunct1,
      THEN mp, OF ok, THEN conjunct1, THEN mp, OF a, THEN conjunct1, THEN mp, OF r]
  have "snd (booking_save (registered (\<lambda>i. NotFound)) ?d) = [Some ?i]"
    by (rule t1[THEN conjunct1])
  moreover have "fst (booking_save (registered (\<lambda>i. NotFound)) ?d) =
      Inl (HookError (js ''Event with ID '' @ ?i @ js '' does not exist''))"
    by (rule t1[THEN conjunct2, THEN conjunct2, THEN conjunct1, THEN mp, OF x])
  ultimately have 1: "booking_save (registered (\<lambda>i. NotFound)) ?d =
     (Inl (HookError (js ''Event with ID 507f1f77bcf86cd799439011 does not exist'')), [Some ?i])"
    by (cases "booking_save (registered (\<lambda>i. NotFound)) ?d") (simp add: js_def)
  have "booking_save (registered (\<lambda>i. ThrowsError (js ''connection lost''))) ?d' =
      (Inr (content ?d'), [])"
    by (rule booking_reference_check[of ?d' ?i, THEN conjunct1, THEN mp, OF ok', THEN conjunct2,
          THEN mp, OF b])
  then have 2: "booking_save (registered (\<lambda>i. ThrowsError (js ''connection lost''))) ?d' =
     (Inr \<lparr>eventId = Some ?i, email = Some (js ''test@example.com'')\<rparr>, [])"
    by (simp add: sample_booking_def)
  have rm: "resolve_Event ?M = ImportThrowsError (js ''Cannot find module'')"
    by (simp add: resolve_Event_def)
  have "booking_save ?M ?d =
      (Inl (HookError (js ''Failed to validate event reference: '' @ js ''Cannot find module'')), [])"
    by (rule booking_reference_check[of ?d ?i ?M "js ''Cannot find module''", THEN conjunct1,
          THEN mp, OF ok, THEN conjunct1, THEN mp, OF a, THEN conjunct2, THEN conjunct1,
          THEN mp, OF rm])
  then have 3: "booking_save ?M ?d =
      (Inl (HookError (js ''Failed to validate event reference: Cannot find module'')), [])"
    by (simp add: js_def)
  have inv: "eventId (content ?n) = None \<or> email_validate (email (content ?n)) \<noteq> None"
    by simp
  have "booking_save (registered (\<lambda>i. Found)) ?n =
      (Inl (ValidationError (booking_validate (content ?n))), [])"
    by (rule booking_reference_check[of ?n _ "registered (\<lambda>i. Found)", THEN conjunct2,
          THEN mp, OF inv, THEN conjunct1])
  moreover have "booking_validate (content ?n) = [''eventId'' \<mapsto> js ''Event ID is required'']"
    by (rule booking_validate_eventId_only) (simp_all add: email_example_accepted)
  ultimately have 4: "booking_save (registered (\<lambda>i. Found)) ?n =
      (Inl (ValidationError [''eventId'' \<mapsto> js ''Event ID is required'']), [])"
    by simp
  from 1 2 3 4 show ?thesis by (intro conjI)
qed

text \<open>
  Claim C5 as stated speaks of every save in which \<open>eventId\<close> is newly set. A new booking
  for an event that does not exist, with the address \<open>"notanemail"\<close> of the test suite:
  \<open>eventId\<close> is newly set, the save fails with the validation error of the \<open>email\<close>
  path, which does not name the identity, and the event is never looked up.
\<close>

theorem booking_invalid_email_no_lookup_counterexample:
  "isNew (sample_booking (js ''notanemail''))
   \<and> isModified (sample_booking (js ''notanemail'')) ''eventId''
   \<and> booking_save (registered (\<lambda>i. NotFound)) (sample_booking (js ''notanemail'')) =
       (Inl (ValidationError [''email'' \<mapsto> js ''Please provide a valid email address'']), [])"
proof -
  let ?d = "sample_booking (js ''notanemail'')"
  have e: "email_validate (email (content ?d)) =
      Some (js ''Please provide a valid email address'')"
    by (simp add: sample_booking_fields email_example_no_at)
  then have "booking_save (registered (\<lambda>i. NotFound)) ?d =
      (Inl (ValidationError (booking_validate (content ?d))), [])"
    by (simp add: booking_save_invalid)
  moreover have "booking_validate (content ?d) =
      [''email'' \<mapsto> js ''Please provide a valid email address'']"
    using sample_booking_fields(1) e by (rule booking_validate_email_only)
  moreover have "isNew ?d" "isModified ?d ''eventId''"
    by (simp_all add: sample_booking_def isModified_def)
  ultimately show ?thesis by simp
qed

section \<open>Claims about the connection cache\<close>

lemma module_init_fresh:
  "url \<noteq> [] \<Longrightarrow> module_init (Some url) None = Inr (initial_system url)"
  by (simp add: module_init_def initial_system_def)


text \<open>
  Claim C8, as amended. Without \<open>MONGODB_URL\<close>, or with the empty string for it, loading
  the module throws \<open>Please define the MONGODB_URL environment variable inside .env\<close>.
  With any other value it does not throw, and it makes no connection attempt: the
  attempts and the microtasks are those that were there before.
\<close>

theorem module_init_outcome:
  "(MONGODB_URL = None \<or> MONGODB_URL = Some [] \<longrightarrow>
      module_init MONGODB_URL g =
        Inl (js ''Please define the MONGODB_URL environment variable inside .env''))
   \<and> (MONGODB_URL = Some url \<and> url \<noteq> [] \<longrightarrow>
      (\<exists>s. module_init MONGODB_URL g = Inr s \<and> mongoUrl s = url \<and>
           attempts s = (case g of None \<Rightarrow> [] | Some s0 \<Rightarrow> attempts s0) \<and>
           queue s = (case g of None \<Rightarrow> [] | Some s0 \<Rightarrow> queue s0)))"
  by (auto simp: module_init_def split: option.splits)

theorem module_init_outcome_witness:
  "(\<exists>s. module_init (Some (js ''mongodb://localhost:27017/test-db'')) None = Inr s \<and>
        attempts s = [] \<and> queue s = [])
   \<and> module_init None None =
        Inl (js ''Please define the MONGODB_URL environment variable inside .env'')"
proof -
  have ne: "js ''mongodb://localhost:27017/test-db'' \<noteq> []" by (simp add: js_def)
  from module_init_outcome[of "Some (js ''mongodb://localhost:27017/test-db'')" None
      "js ''mongodb://localhost:27017/test-db''"] ne
  have 1: "\<exists>s. module_init (Some (js ''mongodb://localhost:27017/test-db'')) None = Inr s \<and>
        attempts s = [] \<and> queue s = []"
    by auto
  from module_init_outcome[of None None]
  have 2: "module_init None None =
        Inl (js ''Please define the MONGODB_URL environment variable inside .env'')"
    by blast
  from 1 2 show ?thesis by (rule conjI)
qed

text \<open>
  Claim C8 as stated says that loading does not throw when the value is present. The empty
  string is a value, and loading throws.
\<close>

theorem module_init_empty_url_counterexample:
  "module_init (Some []) None =
     Inl (js ''Please define the MONGODB_URL environment variable inside .env'')"
  by (simp add: module_init_def)

text \<open>What one call does, by the state of the cache.\<close>

lemma connect_with_conn:
  "conn (cached s) = Some h \<Longrightarrow>
   connectToDatabase s = s\<lparr>calls := calls s @ [Returned h]\<rparr>"
  by (simp add: connectToDatabase_def)

lemma connect_with_promise:
  "conn (cached s) = None \<Longrightarrow> promise (cached s) = Some p \<Longrightarrow>
   length (attempts (connectToDatabase s)) = length (attempts s) \<and>
   cached (connectToDatabase s) = cached s \<and>
   calls (connectToDatabase s) = calls s @ [Awaiting p]"
  by (simp add: connectToDatabase_def Let_def)

lemma connect_with_empty_cache:
  "conn (cached s) = None \<Longrightarrow> promise (cached s) = None \<Longrightarrow>
   length (attempts (connectToDatabase s)) = Suc (length (attempts s)) \<and>
   promise (cached (connectToDatabase s)) = Some (length (attempts s)) \<and>
   calls (connectToDatabase s) = calls s @ [Awaiting (length (attempts s))]"
  by (simp add: connectToDatabase_def Let_def nth_append)

lemma resume_after_rejection:
  "cachedP (attempts s ! a) = Rejected \<Longrightarrow>
   cached (run_job (Resume c a) s) = \<lparr>conn = None, promise = None\<rparr>"
  by simp

text \<open>
  Without a failure the cache keeps its promise: on every schedule whose settlements are
  all successful, whatever the application does in between, at most one connection attempt
  is ever started.
\<close>

lemma calm_initial: "calm (initial_system url)"
  by (simp add: calm_def initial_system_def)

lemma job_ok_Nil: "job_ok [] j \<Longrightarrow> \<exists>k. j = App k"
  by (cases j) simp_all

lemma job_ok_single_waiters:
  "job_ok [at] j \<Longrightarrow> job_ok [at\<lparr>waiters := w\<rparr>] j"
  by (cases j) simp_all

lemma calm_connect: "calm s \<Longrightarrow> calm (connectToDatabase s)"
proof -
  assume c: "calm s"
  from c have q: "\<forall>j \<in> set (queue s). job_ok (attempts s) j" by (simp add: calm_def)
  show ?thesis
  proof (cases "conn (cached s)")
    case (Some h)
    with c show ?thesis by (simp add: connectToDatabase_def calm_def)
  next
    case None
    note cn = this
    show ?thesis
    proof (cases "promise (cached s)")
      case None
      with c have e: "attempts s = []" by (simp add: calm_def)
      with q have "\<forall>j \<in> set (queue s). \<exists>k. j = App k" using job_ok_Nil by auto
      then have "\<forall>j \<in> set (queue s). job_ok as j" for as by auto
      then show ?thesis
        using cn None e
        by (simp add: connectToDatabase_def calm_def Let_def)
    next
      case (Some p)
      with c have p: "p < length (attempts s)" and l: "length (attempts s) \<le> 1"
        by (simp_all add: calm_def)
      then have p0: "p = 0" by simp
      from l p obtain at where at: "attempts s = [at]" by (cases "attempts s") auto
      from c at have nr: "connectP at \<noteq> Rejected" "cachedP at \<noteq> Rejected" by (simp_all add: calm_def)
      from q at have q1: "\<forall>j \<in> set (queue s). job_ok [at] j" by simp
      then have q2: "\<forall>j \<in> set (queue s). job_ok [at\<lparr>waiters := w\<rparr>] j" for w
        using job_ok_single_waiters by blast
      show ?thesis
      proof (cases "cachedP at")
        case Pending
        with cn Some p0 at nr q2 show ?thesis
          by (simp add: connectToDatabase_def calm_def Let_def)
      next
        case Fulfilled
        with cn Some p0 at nr q1 show ?thesis
          by (simp add: connectToDatabase_def calm_def Let_def)
      next
        case Rejected
        with nr show ?thesis by simp
      qed
    qed
  qed
qed


lemma calm_single:
  assumes "calm s" "a < length (attempts s)"
  obtains at where "attempts s = [at]" "a = 0" "connectP at \<noteq> Rejected" "cachedP at \<noteq> Rejected"
proof -
  from assms have l: "length (attempts s) = 1" by (simp add: calm_def)
  then obtain at where at: "attempts s = [at]" by (cases "attempts s") auto
  with assms have "a = 0" "connectP at \<noteq> Rejected" "cachedP at \<noteq> Rejected"
    by (simp_all add: calm_def)
  with at show ?thesis by (rule that)
qed

lemma job_ok_single_connectP:
  "job_ok [at] j \<Longrightarrow> job_ok [at\<lparr>connectP := x\<rparr>] j"
  by (cases j) simp_all

lemma job_ok_single_fulfilled:
  "job_ok [at] j \<Longrightarrow> job_ok [at\<lparr>cachedP := Fulfilled, waiters := w\<rparr>] j"
  by (cases j) simp_all

lemma calm_run_job:
  assumes "calm (s\<lparr>queue := j # q\<rparr>)"
  shows "calm (run_job j (s\<lparr>queue := q\<rparr>))"
proof -
  let ?s = "s\<lparr>queue := q\<rparr>"
  from assms have c: "calm ?s" and jo: "job_ok (attempts s) j"
    by (simp_all add: calm_def)
  from c have qo: "\<forall>x \<in> set q. job_ok (attempts s) x" by (simp add: calm_def)
  show ?thesis
  proof (cases j)
    case (ThenJob a)
    with c jo show ?thesis by (simp add: calm_def)
  next
    case (CatchJob a)
    with jo have "a < length (attempts ?s)" by simp
    with c obtain at where at: "attempts ?s = [at]" "a = 0" "connectP at \<noteq> Rejected"
      "cachedP at \<noteq> Rejected"
      by (rule calm_single)
    from qo at(1) have q1: "\<forall>x \<in> set q. job_ok [at\<lparr>cachedP := Fulfilled, waiters := []\<rparr>] x"
      using job_ok_single_fulfilled by auto
    from c at CatchJob q1 show ?thesis
      by (auto simp add: calm_def Let_def)
  next
    case (Resume c' a)
    with jo have "a < length (attempts ?s)" and f: "cachedP (attempts s ! a) = Fulfilled" by simp_all
    with c Resume show ?thesis by (simp add: calm_def)
  next
    case (App k)
    show ?thesis
    proof (cases k)
      case AppCall
      with App c show ?thesis by (simp add: calm_connect)
    next
      case (AppAwait k')
      with App c show ?thesis by (simp add: calm_def)
    qed
  qed
qed

lemma calm_run_action:
  assumes "calm s" "settles_ok x" "run_action x s = Some s'"
  shows "calm s'"
proof (cases x)
  case Call
  with assms show ?thesis by (auto simp: calm_connect)
next
  case (Settle a ok)
  with assms have ok: "ok" and a: "a < length (attempts s)"
    and s': "s' = s\<lparr>attempts := (attempts s)[a := (attempts s ! a)\<lparr>connectP := Fulfilled\<rparr>],
                    queue := queue s @ [ThenJob a]\<rparr>"
    by (auto split: if_splits)
  from assms(1) a obtain at where at: "attempts s = [at]" "a = 0" "connectP at \<noteq> Rejected"
      "cachedP at \<noteq> Rejected"
    by (rule calm_single)
  from assms(1) at(1) have "\<forall>j \<in> set (queue s). job_ok [at] j" by (simp add: calm_def)
  then have "\<forall>j \<in> set (queue s). job_ok [at\<lparr>connectP := Fulfilled\<rparr>] j"
    using job_ok_single_connectP by blast
  with assms(1) at show ?thesis unfolding s' by (simp add: calm_def)
next
  case (Spawn k)
  with assms show ?thesis by (auto simp: calm_def)
qed

lemma calm_run_actions:
  "calm s \<Longrightarrow> list_all settles_ok xs \<Longrightarrow> run_actions xs s = Some s' \<Longrightarrow> calm s'"
proof (induction xs arbitrary: s)
  case Nil
  then show ?case by simp
next
  case (Cons x xs)
  from Cons.prems(3) obtain s1 where 1: "run_action x s = Some s1" and 2: "run_actions xs s1 = Some s'"
    by (auto split: option.splits)
  from Cons.prems(1,2) 1 have "calm s1" by (auto intro: calm_run_action)
  with Cons.IH Cons.prems(2) 2 show ?case by simp
qed

lemma calm_loop_step:
  assumes "calm s" "no_failure x" "loop_step x s = Some s'"
  shows "calm s'"
proof (cases x)
  case (Task xs)
  with assms show ?thesis by (auto split: if_splits intro: calm_run_actions)
next
  case Microtask
  with assms(3) obtain j q where jq: "queue s = j # q" and s': "s' = run_job j (s\<lparr>queue := q\<rparr>)"
    by (auto split: list.splits)
  from jq have "s\<lparr>queue := j # q\<rparr> = s" by simp
  with assms(1) have "calm (s\<lparr>queue := j # q\<rparr>)" by simp
  then show ?thesis unfolding s' by (rule calm_run_job)
qed

lemma calm_run_loop:
  "calm s \<Longrightarrow> list_all no_failure xs \<Longrightarrow> run_loop xs s = Some s' \<Longrightarrow> calm s'"
proof (induction xs arbitrary: s)
  case Nil
  then show ?case by simp
next
  case (Cons x xs)
  from Cons.prems(3) obtain s1 where 1: "loop_step x s = Some s1" and 2: "run_loop xs s1 = Some s'"
    by (auto split: option.splits)
  from Cons.prems(1,2) 1 have "calm s1" by (auto intro: calm_loop_step)
  with Cons.IH Cons.prems(2) 2 show ?case by simp
qed

lemma single_attempt_without_failure:
  assumes "list_all no_failure xs" "run_loop xs (initial_system url) = Some s"
  shows "length (attempts s) \<le> 1" "in_flight s \<le> 1"
proof -
  from calm_run_loop[OF calm_initial assms] have c: "calm s" .
  then show l: "length (attempts s) \<le> 1" by (simp add: calm_def)
  have "in_flight s \<le> length (attempts s)" unfolding in_flight_def by (rule length_filter_le)
  with l show "in_flight s \<le> 1" by simp
qed

text \<open>
  Claim C6. The claim asks that no reachable state has two connection attempts in flight.
  After \<open>clobber_schedule\<close> two are: the \<open>catch\<close> block of the first call, resumed
  after the second call has stored the promise of attempt 1, sets \<open>cached.promise\<close> to
  null, and the third call starts attempt 2 while attempt 1 is still pending. Before the
  third call the cache is empty although attempt 1 is in flight.
\<close>

theorem two_attempts_in_flight:
  "module_init (Some (js ''mongodb://localhost:27017/test-db'')) None =
     Inr (initial_system (js ''mongodb://localhost:27017/test-db''))
   \<and> map_option (\<lambda>s. (in_flight s, cached s, queue s, calls s))
       (run_loop clobber_schedule (initial_system (js ''mongodb://localhost:27017/test-db''))) =
     Some (2, \<lparr>conn = None, promise = Some 2\<rparr>, [], [Threw 0, Awaiting 1, Awaiting 2])
   \<and> map_option (\<lambda>s. (in_flight s, cached s, queue s))
       (run_loop (butlast clobber_schedule) (initial_system (js ''mongodb://localhost:27017/test-db''))) =
     Some (1, \<lparr>conn = None, promise = None\<rparr>, [])"
  by (simp add: module_init_fresh js_def)
     (simp add: clobber_schedule_def initial_system_def connectToDatabase_def in_flight_def)

end
